theory Spec2Isabelle
  imports Complex_Main "HOL-Library.Log_Nat"
begin

section \<open>Numbers: qreal\<close>

text \<open>
  \<open>qreal\<close> is a binary64 \<open>double\<close>. A finite value is modelled by the real number it
  denotes. Comparisons, \<open>fabs\<close>, \<open>fmod\<close>, \<open>qMin\<close> and \<open>qMax\<close> are exact on such values;
  the result of every \<open>+\<close>, \<open>-\<close>, \<open>*\<close> and \<open>/\<close> is passed through the rounding function
  \<open>rnd\<close> of the environment. Two roundings are used below: the identity (arithmetic
  without rounding error) and \<open>fl64\<close>, round-to-nearest-even on 53 significant bits.
  Infinities and NaN are not values of the model, and it has a single zero. A division
  by zero raises nothing in the source: it yields an infinity or NaN and the run goes
  on. Where a returned result is read off such a run, the continuation is written out by
  cases: \<open>clampedQuotient\<close> for the quotient that \<open>cubicBlend\<close> clamps, \<open>at_NaN\<close> for the
  one sample of \<open>render(1)\<close>. Every other quotient is \<open>fdiv\<close>: with a zero divisor it
  gives \<open>NotFinite\<close>, which stands for a run that has left the values of the model and
  says nothing of what the source returns; whatever is stated below of a result is
  stated where the divisors are shown to be nonzero. Overflow and underflow are not
  modelled.
  Dereferencing \<open>end()\<close> or stepping before \<open>begin()\<close> of a \<open>QMap\<close>, undefined behaviour
  in the source, ends it with \<open>InvalidIterator\<close>.
\<close>

datatype fault = InvalidIterator | NotFinite

definition bnd :: "fault + 'a \<Rightarrow> ('a \<Rightarrow> fault + 'b) \<Rightarrow> fault + 'b" where
  "bnd r f = (case r of Inl e \<Rightarrow> Inl e | Inr x \<Rightarrow> f x)"

text \<open>\<open>QColor::Spec\<close>, as far as \<open>blendSpace\<close> uses it.\<close>

datatype Spec = Rgb | Hsv | Cmyk | Hsl

text \<open>
  The collaborators of \<open>qtGradient.cpp\<close> that are not part of it: the rounding of
  the machine arithmetic, \<open>Qt::transparent\<close>, and the four overloads of
  \<open>qtColorUtil::blend\<close> (two and four reals, two and four colours in a colour space).
  The colour type \<open>'c\<close> stands for \<open>QColor\<close>.
\<close>

record 'c env =
  rnd :: "real \<Rightarrow> real"
  transparent :: 'c
  blendReal :: "real \<Rightarrow> real \<Rightarrow> real \<Rightarrow> real"
  blendReal4 :: "real \<Rightarrow> real \<Rightarrow> real \<Rightarrow> real \<Rightarrow> real \<Rightarrow> real"
  blendColor :: "'c \<Rightarrow> 'c \<Rightarrow> real \<Rightarrow> Spec \<Rightarrow> 'c"
  blendColor4 :: "'c \<Rightarrow> 'c \<Rightarrow> 'c \<Rightarrow> 'c \<Rightarrow> real \<Rightarrow> Spec \<Rightarrow> 'c"

definition fadd :: "'c env \<Rightarrow> real \<Rightarrow> real \<Rightarrow> real" where
  "fadd E x y = rnd E (x + y)"

definition fsub :: "'c env \<Rightarrow> real \<Rightarrow> real \<Rightarrow> real" where
  "fsub E x y = rnd E (x - y)"

definition fmul :: "'c env \<Rightarrow> real \<Rightarrow> real \<Rightarrow> real" where
  "fmul E x y = rnd E (x * y)"

definition fdiv :: "'c env \<Rightarrow> real \<Rightarrow> real \<Rightarrow> fault + real" where
  "fdiv E x y = (if y = 0 then Inl NotFinite else Inr (rnd E (x / y)))"

text \<open>C's \<open>fmod\<close>: the remainder of the quotient truncated toward zero; it is exact.\<close>

definition trunc :: "real \<Rightarrow> int" where
  "trunc x = (if 0 \<le> x then \<lfloor>x\<rfloor> else \<lceil>x\<rceil>)"

definition fmod :: "real \<Rightarrow> real \<Rightarrow> real" where
  "fmod x y = x - y * of_int (trunc (x / y))"

text \<open>Qt's \<open>qBound(min, val, max)\<close> is \<open>qMax(min, qMin(max, val))\<close>.\<close>

definition qBound :: "real \<Rightarrow> real \<Rightarrow> real \<Rightarrow> real" where
  "qBound lo val hi = max lo (min hi val)"

text \<open>
  \<open>qBound(0.0, x / y, 1.0)\<close>, also for a zero divisor. With \<open>qMin(a, b)\<close> being
  \<open>(a < b) ? a : b\<close> and \<open>qMax(a, b)\<close> being \<open>(a < b) ? b : a\<close>, a quotient that is
  \<open>+infinity\<close> (\<open>x\<close> positive) is clamped to 1, one that is \<open>-infinity\<close> (\<open>x\<close> negative) to
  0, and the NaN of \<open>0 / 0\<close> to 0 as well, every comparison with NaN being false. The zero
  divisor is taken to be \<open>+0\<close>, which is what the subtraction of two equal values gives.
\<close>

definition clampedQuotient :: "'c env \<Rightarrow> real \<Rightarrow> real \<Rightarrow> real" where
  "clampedQuotient E x y =
     (if y = 0 then (if 0 < x then 1 else 0) else qBound 0 (rnd E (x / y)) 1)"

text \<open>
  Qt's \<open>qFuzzyCompare(double p1, double p2)\<close> is
  \<open>qAbs(p1 - p2) * 1000000000000. <= qMin(qAbs(p1), qAbs(p2))\<close>.
\<close>

definition qFuzzyCompare :: "'c env \<Rightarrow> real \<Rightarrow> real \<Rightarrow> bool" where
  "qFuzzyCompare E p1 p2 \<longleftrightarrow>
     fmul E \<bar>fsub E p1 p2\<bar> 1000000000000 \<le> min \<bar>p1\<bar> \<bar>p2\<bar>"

section \<open>Data model\<close>

record 'c Stop =
  Position :: real
  Color :: 'c
  Weight :: real

datatype Spread = PadSpread | ReflectSpread | RepeatSpread

datatype NormalizeMode = NormalizeStops | TruncateStops

text \<open>
  Modelled from the spec: the flag type \<open>qtGradient::InterpolationMode\<close> of
  \<open>qtGradient.h\<close>, which is not among the sources. The spec describes it as a pair of
  independently set flags, a function and a colour space; the two masks
  \<open>InterpolateFunctionMask\<close> and \<open>InterpolateColorspaceMask\<close> are the two fields.
\<close>

datatype InterpolateFunction = InterpolateDiscrete | InterpolateLinear | InterpolateCubic

datatype InterpolateColorspace = InterpolateRgb | InterpolateCmyk | InterpolateHsv | InterpolateHsl

record InterpolationMode =
  func :: InterpolateFunction
  colorspace :: InterpolateColorspace

text \<open>
  \<open>QMap<qreal, Stop>\<close>: a list of key-value pairs in strictly ascending key order.
  An iterator is an index into it; \<open>begin()\<close> is 0 and \<open>end()\<close> is the length.
\<close>

type_synonym 'v qmap = "(real \<times> 'v) list"

fun sorted_keys :: "'v qmap \<Rightarrow> bool" where
  "sorted_keys [] = True"
| "sorted_keys [kv] = True"
| "sorted_keys ((k, v) # (k', v') # m) = (k < k' \<and> sorted_keys ((k', v') # m))"

fun map_insert :: "real \<Rightarrow> 'v \<Rightarrow> 'v qmap \<Rightarrow> 'v qmap" where
  "map_insert k v [] = [(k, v)]"
| "map_insert k v ((k', v') # m) =
     (if k < k' then (k, v) # (k', v') # m
      else if k' < k then (k', v') # map_insert k v m
      else (k, v) # m)"

fun lowerBound :: "'v qmap \<Rightarrow> real \<Rightarrow> nat" where
  "lowerBound [] k = 0"
| "lowerBound ((k', v) # m) k = (if k' < k then Suc (lowerBound m k) else 0)"

definition iter_key :: "'v qmap \<Rightarrow> nat \<Rightarrow> fault + real" where
  "iter_key m i = (if i < length m then Inr (fst (m ! i)) else Inl InvalidIterator)"

definition iter_value :: "'v qmap \<Rightarrow> nat \<Rightarrow> fault + 'v" where
  "iter_value m i = (if i < length m then Inr (snd (m ! i)) else Inl InvalidIterator)"

definition iter_minus :: "nat \<Rightarrow> nat \<Rightarrow> fault + nat" where
  "iter_minus i n = (if n \<le> i then Inr (i - n) else Inl InvalidIterator)"

definition erase :: "'v qmap \<Rightarrow> nat \<Rightarrow> 'v qmap" where
  "erase m i = take i m @ drop (Suc i) m"

definition map_remove :: "real \<Rightarrow> 'v qmap \<Rightarrow> nat \<times> 'v qmap" where
  "map_remove k m = (length (filter (\<lambda>kv. fst kv = k) m), filter (\<lambda>kv. fst kv \<noteq> k) m)"

record 'c qtGradientData =
  stops :: "'c Stop qmap"
  interpolateMode :: InterpolationMode
  spread :: Spread

section \<open>qtGradientData: blending\<close>

definition blendSpace :: "'c qtGradientData \<Rightarrow> Spec" where
  "blendSpace d = (case colorspace (interpolateMode d) of
      InterpolateCmyk \<Rightarrow> Cmyk
    | InterpolateHsv \<Rightarrow> Hsv
    | InterpolateHsl \<Rightarrow> Hsl
    | InterpolateRgb \<Rightarrow> Rgb)"

definition blend :: "'c env \<Rightarrow> 'c qtGradientData \<Rightarrow> 'c \<Rightarrow> 'c \<Rightarrow> real \<Rightarrow> 'c" where
  "blend E d a b t = blendColor E a b t (blendSpace d)"

text \<open>
  The weighting of \<open>linearBlend\<close> and of \<open>cubicBlend\<close> divides by \<open>1 - w\<close> when \<open>t > w\<close>
  and by \<open>w\<close> otherwise; the divisor is zero only for \<open>t > w = 1\<close> or \<open>t \<le> w = 0\<close>, and
  \<open>at\<close> passes a relative position \<open>t\<close> that lies between two neighbouring keys.
\<close>

definition linearBlend ::
  "'c env \<Rightarrow> 'c qtGradientData \<Rightarrow> 'c \<Rightarrow> 'c \<Rightarrow> real \<Rightarrow> real \<Rightarrow> fault + 'c" where
  "linearBlend E d a b t w =
     bnd (if t > w
          then bnd (fdiv E (fsub E t w) (fsub E 1 w)) (\<lambda>q. Inr (blendReal E (1/2) 1 q))
          else bnd (fdiv E t w) (\<lambda>q. Inr (blendReal E 0 (1/2) q)))
       (\<lambda>t'. Inr (blend E d a b t'))"

definition cubicBlend ::
  "'c env \<Rightarrow> 'c qtGradientData \<Rightarrow> 'c Stop \<Rightarrow> 'c Stop \<Rightarrow> 'c Stop \<Rightarrow> 'c Stop \<Rightarrow> real
     \<Rightarrow> fault + 'c" where
  "cubicBlend E d a b c dd t =
     (let cb = Color b; cc = Color c;
          ca = blend E d (Color a) cb (1/2);
          cd = blend E d (Color dd) cc (1/2);
          cm = blend E d cb cc (1/2);
          w = Weight b;
          pb = Position b; pc = Position c;
          pa = blendReal E (Position a) pb (Weight a);
          pd = blendReal E (Position dd) pc (Weight c);
          pm = blendReal E pb pc w
      in if t > w
         then bnd (fdiv E (fsub E t w) (fsub E 1 w)) (\<lambda>t1.
              let t2 = blendReal4 E pb pm pc pd t1;
                  t3 = clampedQuotient E (fsub E t2 pm) (fsub E pc pm)
              in Inr (blendColor4 E cb cm cc cd t3 (blendSpace d)))
         else bnd (fdiv E t w) (\<lambda>t1.
              let t2 = blendReal4 E pa pb pm pc t1;
                  t3 = clampedQuotient E (fsub E t2 pb) (fsub E pm pb)
              in Inr (blendColor4 E ca cb cm cc t3 (blendSpace d))))"

section \<open>qtGradient: the stop set\<close>

definition fromList :: "'c Stop list \<Rightarrow> 'c Stop qmap" where
  "fromList sl = fold (\<lambda>stop m. map_insert (Position stop) stop m) sl []"

text \<open>The first truncation loop erases \<open>begin()\<close> while its key is below 0.\<close>

fun truncateLow :: "'v qmap \<Rightarrow> 'v qmap" where
  "truncateLow [] = []"
| "truncateLow ((k, v) # m) = (if k < 0 then truncateLow m else (k, v) # m)"

text \<open>
  The second truncation loop reads the key of \<open>stopsMap.end()\<close>, not of the last
  element; so do the two tests that follow it.
\<close>

function truncateHigh :: "'v qmap \<Rightarrow> fault + 'v qmap" where
  "truncateHigh m =
     (if m = [] then Inr m
      else case iter_key m (length m) of
             Inl e \<Rightarrow> Inl e
           | Inr k \<Rightarrow> if k > 1 then truncateHigh (erase m (length m)) else Inr m)"
  by pat_completeness auto
termination
  by (relation "{}") (auto simp: iter_key_def)

definition addEndStops :: "'v qmap \<Rightarrow> fault + 'v qmap" where
  "addEndStops m =
     (if m \<noteq> [] then
        bnd (iter_key m 0) (\<lambda>k0.
        bnd (if k0 > 0 then bnd (iter_value m 0) (\<lambda>v. Inr (map_insert 0 v m)) else Inr m)
          (\<lambda>m'.
        bnd (iter_key m' (length m')) (\<lambda>k1.
        if k1 < 1 then bnd (iter_value m' (length m')) (\<lambda>v. Inr (map_insert 1 v m'))
        else Inr m')))
      else Inr m)"

definition normalized :: "'c env \<Rightarrow> real \<Rightarrow> real \<Rightarrow> 'c Stop list \<Rightarrow> 'c Stop qmap" where
  "normalized E offset scale sl =
     fold (\<lambda>stop m. let p = fmul E (fsub E (Position stop) offset) scale
                    in map_insert p (stop\<lparr>Position := p\<rparr>) m) sl []"

text \<open>
  In normalize mode the scale is \<open>1.0 / (last key - first key)\<close>. The divisor is zero when
  all the stops of the list share one position: the scale is then infinite and the
  positions become NaN, which is outside the model.
\<close>

definition setStops ::
  "'c env \<Rightarrow> 'c Stop list \<Rightarrow> NormalizeMode \<Rightarrow> 'c qtGradientData \<Rightarrow> fault + 'c qtGradientData"
  where
  "setStops E sl nm d =
     (case sl of
        [] \<Rightarrow> Inr (d\<lparr>stops := []\<rparr>)
      | [stop] \<Rightarrow> Inr (d\<lparr>stops := map_insert 0 stop []\<rparr>)
      | _ \<Rightarrow>
         (let stopsMap = fromList sl in
          if nm = NormalizeStops then
            bnd (iter_key stopsMap 0) (\<lambda>offset.
            bnd (iter_minus (length stopsMap) 1) (\<lambda>lst.
            bnd (iter_key stopsMap lst) (\<lambda>hi.
            bnd (fdiv E 1 (fsub E hi offset)) (\<lambda>scale.
            Inr (d\<lparr>stops := normalized E offset scale sl\<rparr>)))))
          else
            bnd (truncateHigh (truncateLow stopsMap)) (\<lambda>m.
            bnd (addEndStops m) (\<lambda>m'.
            Inr (d\<lparr>stops := m'\<rparr>)))))"

definition insertStop :: "'c Stop \<Rightarrow> 'c qtGradientData \<Rightarrow> bool \<times> 'c qtGradientData" where
  "insertStop stop d =
     (if \<not> (0 < Position stop \<or> Position stop < 1) then (False, d)
      else (True, d\<lparr>stops := map_insert (Position stop) stop (stops d)\<rparr>))"

definition removeStop :: "real \<Rightarrow> 'c qtGradientData \<Rightarrow> bool \<times> 'c qtGradientData" where
  "removeStop position d =
     (let (n, m) = map_remove position (stops d) in (n > 0, d\<lparr>stops := m\<rparr>))"

section \<open>qtGradient: sampling\<close>

definition spreadPos :: "'c env \<Rightarrow> Spread \<Rightarrow> real \<Rightarrow> real" where
  "spreadPos E s pos =
     (case s of
        RepeatSpread \<Rightarrow> (let pos' = fmod pos 1 in if pos' < 0 then fadd E 1 pos' else pos')
      | ReflectSpread \<Rightarrow> (let pos' = \<bar>fmod pos 2\<bar> in if pos' > 1 then fsub E 2 pos' else pos')
      | PadSpread \<Rightarrow> qBound 0 pos 1)"

definition stopColor :: "'c Stop qmap \<Rightarrow> nat \<Rightarrow> fault + 'c" where
  "stopColor m i = bnd (iter_value m i) (\<lambda>stop. Inr (Color stop))"

text \<open>
  \<open>qtGradient::at\<close>; the name \<open>at\<close> belongs to a constant of the library. The relative
  position divides by the difference of the keys of two neighbouring stops, which differ.
\<close>

definition at_color :: "'c env \<Rightarrow> 'c qtGradientData \<Rightarrow> real \<Rightarrow> fault + 'c" where
  "at_color E d p =
     (if stops d = [] then Inr (transparent E)
      else if length (stops d) < 2 then stopColor (stops d) 0
      else
        let pos = spreadPos E (spread d) p;
            su = lowerBound (stops d) pos
        in bnd (iter_key (stops d) su) (\<lambda>ku.
           if qFuzzyCompare E pos ku then stopColor (stops d) su
           else
             bnd (iter_minus su 1) (\<lambda>sl.
             bnd (iter_key (stops d) sl) (\<lambda>kl.
             bnd (fdiv E (fsub E pos kl) (fsub E ku kl)) (\<lambda>rpos.
             if qFuzzyCompare E pos kl then stopColor (stops d) sl
             else
               bnd (iter_value (stops d) sl) (\<lambda>vl.
               bnd (iter_value (stops d) su) (\<lambda>vu.
               case func (interpolateMode d) of
                 InterpolateDiscrete \<Rightarrow>
                   Inr (if rpos < Weight vl then Color vl else Color vu)
               | InterpolateCubic \<Rightarrow>
                   bnd (if sl = 0 then Inr sl else iter_minus sl 1) (\<lambda>sll.
                   bnd (iter_value (stops d) sll) (\<lambda>vll.
                   bnd (iter_value (stops d)
                          (if Suc su = length (stops d) then su else Suc su)) (\<lambda>vuu.
                   cubicBlend E d vll vl vu vuu rpos)))
               | InterpolateLinear \<Rightarrow>
                   linearBlend E d (Color vl) (Color vu) rpos (Weight vl))))))))"

text \<open>
  \<open>qtGradient::at\<close> on a NaN position, which is what \<open>render(1)\<close> passes. Under pad
  \<open>qBound(0.0, NaN, 1.0)\<close> is 0.0 (\<open>qMin(1.0, NaN)\<close> is NaN and \<open>qMax(0.0, NaN)\<close> is 0.0),
  and the run goes on as that of \<open>at(0.0)\<close>. Under repeat and reflect the position stays
  NaN (\<open>fmod\<close> and \<open>fabs\<close> return NaN, both tests on it are false); no key compares
  less than NaN, so \<open>lowerBound\<close> returns \<open>begin()\<close>; \<open>qFuzzyCompare\<close> is false; and
  \<open>su - 1\<close> steps before \<open>begin()\<close>.
\<close>

definition at_NaN :: "'c env \<Rightarrow> 'c qtGradientData \<Rightarrow> fault + 'c" where
  "at_NaN E d =
     (if stops d = [] then Inr (transparent E)
      else if length (stops d) < 2 then stopColor (stops d) 0
      else case spread d of
             PadSpread \<Rightarrow> at_color E d 0
           | RepeatSpread \<Rightarrow> Inl InvalidIterator
           | ReflectSpread \<Rightarrow> Inl InvalidIterator)"

text \<open>
  Modelled from the spec: \<open>qtIndexRange(size)\<close> of \<open>core/qtIndexRange.h\<close>, which is not
  among the sources; the spec has the loop visit \<open>i\<close> in \<open>0..size-1\<close>.
\<close>

definition qtIndexRange :: "int \<Rightarrow> int list" where
  "qtIndexRange n = [0..n - 1]"

fun collect :: "(fault + 'a) list \<Rightarrow> fault + 'a list" where
  "collect [] = Inr []"
| "collect (r # rs) = bnd r (\<lambda>x. bnd (collect rs) (\<lambda>xs. Inr (x # xs)))"

definition samplePos :: "'c env \<Rightarrow> real \<Rightarrow> int \<Rightarrow> real" where
  "samplePos E k i = fmul E (of_int i) k"

text \<open>
  \<open>qtGradient::render\<close>. For \<open>size = 1\<close> the step \<open>1.0 / (size - 1)\<close> is \<open>1.0 / 0\<close>, that is
  \<open>+infinity\<close>, and the position of the one sample, \<open>0 * infinity\<close>, is NaN.
\<close>

definition render :: "'c env \<Rightarrow> 'c qtGradientData \<Rightarrow> int \<Rightarrow> fault + 'c list" where
  "render E d n =
     (if n - 1 = 0 then collect (map (\<lambda>i. at_NaN E d) (qtIndexRange n))
      else let k = rnd E (1 / of_int (n - 1))
           in collect (map (\<lambda>i. at_color E d (samplePos E k i)) (qtIndexRange n)))"

text \<open>\<open>QList::at(i)\<close> on the result of \<open>render\<close>.\<close>

definition element :: "fault + 'a list \<Rightarrow> nat \<Rightarrow> fault + 'a" where
  "element r i = bnd r (\<lambda>xs. if i < length xs then Inr (xs ! i) else Inl InvalidIterator)"

text \<open>Reading the stops back: \<open>stops().values()\<close>, in ascending key order.\<close>

definition stopList :: "'c qtGradientData \<Rightarrow> 'c Stop list" where
  "stopList d = map snd (stops d)"

section \<open>Binary64 rounding\<close>

text \<open>
  Round-to-nearest, ties-to-even, on 53 significant bits: \<open>expo x\<close> is the exponent of
  the binade of \<open>x\<close>, that is \<open>\<lfloor>log\<^sub>2 \<bar>x\<bar>\<rfloor>\<close>, and \<open>fl64 x\<close> rounds \<open>x\<close> to a multiple of
  \<open>2 powi (expo x - 52)\<close>. It is the rounding of binary64 on the normal range, that is
  where \<open>2 powi (-1022) \<le> \<bar>x\<bar>\<close> and the result is below \<open>2 ^ 1024\<close>, and at 0; the
  exponent range (overflow, subnormal numbers) is not modelled. Every value rounded in
  the concrete runs below lies well inside the normal range.
\<close>

definition round_even :: "real \<Rightarrow> int" where
  "round_even y = (let f = \<lfloor>y\<rfloor>; r = y - of_int f
                   in if r < 1/2 then f else if 1/2 < r then f + 1
                      else if even f then f else f + 1)"

definition expo :: "real \<Rightarrow> int" where
  "expo x = (if 1 \<le> \<bar>x\<bar> then bitlen \<lfloor>\<bar>x\<bar>\<rfloor> - 1 else - bitlen (\<lceil>1 / \<bar>x\<bar>\<rceil> - 1))"

definition fl64 :: "real \<Rightarrow> real" where
  "fl64 x = (if x = 0 then 0
             else let u = 2 powi (expo x - 52) in of_int (round_even (x / u)) * u)"

text \<open>
  What the theorems below ask of the rounding of an environment: it is monotone and
  idempotent, it leaves every binary64 value unchanged, and it rounds nothing but
  zero to zero. Both the identity and \<open>fl64\<close> are such roundings.
\<close>

definition rounding :: "(real \<Rightarrow> real) \<Rightarrow> bool" where
  "rounding r \<longleftrightarrow>
     (\<forall>x y. x \<le> y \<longrightarrow> r x \<le> r y) \<and> (\<forall>x. r (r x) = r x) \<and>
     (\<forall>x. fl64 x = x \<longrightarrow> r x = x) \<and> (\<forall>x. r x = 0 \<longrightarrow> x = 0)"

section \<open>Sample collaborators and inputs\<close>

text \<open>
  A stand-in for \<open>QColor\<close> and \<open>qtColorUtil\<close>, used only to run the model on concrete
  inputs: a colour is four real channels (red, green, blue, alpha), two values are
  blended linearly and four by a Catmull-Rom spline, channel by channel, whatever the
  colour space.
\<close>

datatype rgba = Rgba real real real real

definition mix :: "real \<Rightarrow> real \<Rightarrow> real \<Rightarrow> real" where
  "mix a b t = a * (1 - t) + b * t"

definition mix4 :: "real \<Rightarrow> real \<Rightarrow> real \<Rightarrow> real \<Rightarrow> real \<Rightarrow> real" where
  "mix4 a b c d t =
     (2 * b + (c - a) * t + (2 * a - 5 * b + 4 * c - d) * t ^ 2
        + (3 * b - a - 3 * c + d) * t ^ 3) / 2"

fun mixColor :: "rgba \<Rightarrow> rgba \<Rightarrow> real \<Rightarrow> Spec \<Rightarrow> rgba" where
  "mixColor (Rgba r1 g1 b1 a1) (Rgba r2 g2 b2 a2) t sp =
     Rgba (mix r1 r2 t) (mix g1 g2 t) (mix b1 b2 t) (mix a1 a2 t)"

fun mixColor4 :: "rgba \<Rightarrow> rgba \<Rightarrow> rgba \<Rightarrow> rgba \<Rightarrow> real \<Rightarrow> Spec \<Rightarrow> rgba" where
  "mixColor4 (Rgba r1 g1 b1 a1) (Rgba r2 g2 b2 a2) (Rgba r3 g3 b3 a3) (Rgba r4 g4 b4 a4) t sp =
     Rgba (mix4 r1 r2 r3 r4 t) (mix4 g1 g2 g3 g4 t) (mix4 b1 b2 b3 b4 t) (mix4 a1 a2 a3 a4 t)"

definition sampleEnv :: "(real \<Rightarrow> real) \<Rightarrow> rgba env" where
  "sampleEnv r = \<lparr>rnd = r, transparent = Rgba 0 0 0 0, blendReal = mix, blendReal4 = mix4,
                  blendColor = mixColor, blendColor4 = mixColor4\<rparr>"

definition env64 :: "rgba env" where
  "env64 = sampleEnv fl64"

definition black :: rgba where "black = Rgba 0 0 0 1"
definition white :: rgba where "white = Rgba 1 1 1 1"

text \<open>Two stops at 0 and 49, and the gradients the first and the second normalization
  of them produce in binary64.\<close>

definition stops49 :: "rgba Stop list" where
  "stops49 = [\<lparr>Position = 0, Color = black, Weight = 1/2\<rparr>,
              \<lparr>Position = 49, Color = white, Weight = 1/2\<rparr>]"

definition once49 :: "rgba qtGradientData" where
  "once49 = \<lparr>stops = [(0, \<lparr>Position = 0, Color = black, Weight = 1/2\<rparr>),
                       (1 - 1 / 2 ^ 53,
                        \<lparr>Position = 1 - 1 / 2 ^ 53, Color = white, Weight = 1/2\<rparr>)],
             interpolateMode = \<lparr>func = InterpolateLinear, colorspace = InterpolateRgb\<rparr>,
             spread = PadSpread\<rparr>"

definition twice49 :: "rgba qtGradientData" where
  "twice49 = \<lparr>stops = [(0, \<lparr>Position = 0, Color = black, Weight = 1/2\<rparr>),
                        (1, \<lparr>Position = 1, Color = white, Weight = 1/2\<rparr>)],
              interpolateMode = \<lparr>func = InterpolateLinear, colorspace = InterpolateRgb\<rparr>,
              spread = PadSpread\<rparr>"

definition mkStop :: "real \<Rightarrow> 'c \<Rightarrow> 'c Stop" where
  "mkStop p c = \<lparr>Position = p, Color = c, Weight = 1/2\<rparr>"

text \<open>
  The gradient of the default constructor: linear interpolation in RGB, pad spread,
  opaque black at 0 and opaque white at 1.
\<close>

definition blackWhite :: "rgba qtGradientData" where
  "blackWhite = \<lparr>stops = [(0, mkStop 0 black), (1, mkStop 1 white)],
                 interpolateMode = \<lparr>func = InterpolateLinear, colorspace = InterpolateRgb\<rparr>,
                 spread = PadSpread\<rparr>"

text \<open>The same gradient with discrete interpolation: black below the pivot 1/2, white from it on.\<close>

definition blackWhiteSteps :: "rgba qtGradientData" where
  "blackWhiteSteps =
     blackWhite\<lparr>interpolateMode := \<lparr>func = InterpolateDiscrete, colorspace = InterpolateRgb\<rparr>\<rparr>"

text \<open>The same gradient with cubic interpolation.\<close>

definition blackWhiteCubic :: "rgba qtGradientData" where
  "blackWhiteCubic =
     blackWhite\<lparr>interpolateMode := \<lparr>func = InterpolateCubic, colorspace = InterpolateRgb\<rparr>\<rparr>"

section \<open>Properties of the rounding\<close>

lemma round_even_of_int: "round_even (of_int n) = n"
  by (simp add: round_even_def)

lemma round_even_bounds: "\<lfloor>y\<rfloor> \<le> round_even y \<and> round_even y \<le> \<lfloor>y\<rfloor> + 1"
  by (simp add: round_even_def Let_def)

lemma round_even_mono: "x \<le> y \<Longrightarrow> round_even x \<le> round_even y"
proof -
  assume xy: "x \<le> y"
  have fl: "\<lfloor>x\<rfloor> \<le> \<lfloor>y\<rfloor>" using xy by (rule floor_mono)
  show ?thesis
  proof (cases "\<lfloor>x\<rfloor> = \<lfloor>y\<rfloor>")
    case True
    then show ?thesis using xy by (auto simp: round_even_def Let_def)
  next
    case False
    then have "\<lfloor>x\<rfloor> + 1 \<le> \<lfloor>y\<rfloor>" using fl by linarith
    then show ?thesis using round_even_bounds[of x] round_even_bounds[of y] by linarith
  qed
qed

lemma round_even_minus: "round_even (- y) = - round_even y"
proof (cases "y = of_int \<lfloor>y\<rfloor>")
  case True
  then obtain n where "y = of_int n" by metis
  then show ?thesis by (simp add: round_even_of_int flip: of_int_minus)
next
  case False
  then have c: "\<lceil>y\<rceil> = \<lfloor>y\<rfloor> + 1" by (metis ceiling_altdef)
  have f: "\<lfloor>- y\<rfloor> = - \<lfloor>y\<rfloor> - 1" using c by (simp add: floor_minus)
  have lt: "of_int \<lfloor>y\<rfloor> < y" using False by (metis of_int_floor_le order_less_le)
  show ?thesis using f lt by (auto simp: round_even_def Let_def)
qed

lemma expo_bounds:
  assumes "x \<noteq> 0"
  shows "2 powi (expo x) \<le> \<bar>x\<bar> \<and> \<bar>x\<bar> < 2 powi (expo x + 1)"
proof (cases "1 \<le> \<bar>x\<bar>")
  case True
  define n where "n = \<lfloor>\<bar>x\<bar>\<rfloor>"
  have n1: "1 \<le> n" using True by (simp add: n_def)
  have e: "expo x = bitlen n - 1" using True by (simp add: expo_def n_def)
  have b1: "1 \<le> bitlen n" using n1 by (simp add: bitlen_alt_def)
  from bitlen_bounds[of n] n1 have bb: "2 ^ nat (bitlen n - 1) \<le> n" "n < 2 ^ nat (bitlen n)" by auto
  have "(2::real) powi (expo x) = 2 ^ nat (bitlen n - 1)" using b1 e by (simp add: power_int_def)
  also have "\<dots> \<le> of_int n" using bb(1) by (metis of_int_le_iff of_int_numeral of_int_power)
  also have "\<dots> \<le> \<bar>x\<bar>" by (simp add: n_def)
  finally have lo: "2 powi (expo x) \<le> \<bar>x\<bar>" .
  have "n + 1 \<le> 2 ^ nat (bitlen n)" using bb(2) by simp
  then have "(of_int (n + 1) :: real) \<le> 2 ^ nat (bitlen n)" by (metis of_int_le_iff of_int_numeral of_int_power)
  moreover have "\<bar>x\<bar> < of_int (n + 1)" unfolding n_def by linarith
  moreover have "(2::real) powi (expo x + 1) = 2 ^ nat (bitlen n)" using b1 e by (simp add: power_int_def)
  ultimately have "\<bar>x\<bar> < 2 powi (expo x + 1)" by linarith
  with lo show ?thesis by simp
next
  case False
  define y where "y = 1 / \<bar>x\<bar>"
  have x0: "0 < \<bar>x\<bar>" using assms by simp
  have y1: "1 < y" using False x0 by (simp add: y_def)
  define c where "c = \<lceil>y\<rceil>"
  have c2: "2 \<le> c" using y1 unfolding c_def by linarith
  define b where "b = bitlen (c - 1)"
  have e: "expo x = - b" using False by (simp add: expo_def b_def c_def y_def)
  have b1: "1 \<le> b" using c2 by (simp add: bitlen_alt_def b_def)
  from bitlen_bounds[of "c - 1"] c2 have bb: "2 ^ nat (b - 1) \<le> c - 1" "c - 1 < 2 ^ nat b"
    by (auto simp: b_def)
  have cy: "of_int (c - 1) < y" "y \<le> of_int c" unfolding c_def by linarith+
  have "(2::real) ^ nat (b - 1) \<le> of_int (c - 1)" using bb(1) by (metis of_int_le_iff of_int_numeral of_int_power)
  then have ylo: "2 ^ nat (b - 1) < y" using cy(1) by linarith
  have "c \<le> 2 ^ nat b" using bb(2) by simp
  then have "(of_int c :: real) \<le> 2 ^ nat b" by (metis of_int_le_iff of_int_numeral of_int_power)
  then have yhi: "y \<le> 2 ^ nat b" using cy(2) by linarith
  have p1: "(2::real) powi (expo x) = 1 / 2 ^ nat b" using b1 e by (simp add: power_int_def field_simps)
  have p2: "(2::real) powi (expo x + 1) = 1 / 2 ^ nat (b - 1)"
    using b1 e by (simp add: power_int_def field_simps nat_diff_distrib)
  have xa: "\<bar>x\<bar> = 1 / y" by (simp add: y_def)
  have "1 / 2 ^ nat b \<le> 1 / y" using yhi y1 by (simp add: frac_le)
  moreover have "1 / y < 1 / 2 ^ nat (b - 1)" using ylo by (simp add: frac_less2)
  ultimately show ?thesis using p1 p2 xa by simp
qed

lemma powi2_less_imp: "(2::real) powi a < 2 powi b \<Longrightarrow> a < b"
  using power_int_increasing[of b a "2::real"] by (cases "a < b") auto

lemma expo_unique:
  assumes "2 powi e \<le> \<bar>x\<bar>" "\<bar>x\<bar> < 2 powi (e + 1)"
  shows "expo x = e"
proof -
  have "(0::real) < 2 powi e" by simp
  then have "0 < \<bar>x\<bar>" using assms(1) by (rule less_le_trans)
  then have x0: "x \<noteq> 0" by simp
  note b = expo_bounds[OF x0]
  have "(2::real) powi e < 2 powi (expo x + 1)" using assms(1) b by linarith
  then have 1: "e < expo x + 1" by (rule powi2_less_imp)
  have "(2::real) powi (expo x) < 2 powi (e + 1)" using assms(2) b by linarith
  then have 2: "expo x < e + 1" by (rule powi2_less_imp)
  from 1 2 show ?thesis by simp
qed

lemma expo_minus: "expo (- x) = expo x"
  by (simp add: expo_def)

lemma expo_mono:
  assumes "0 < x" "x \<le> y"
  shows "expo x \<le> expo y"
proof -
  have "2 powi (expo x) \<le> \<bar>x\<bar>" using expo_bounds[of x] assms by simp
  moreover have "\<bar>y\<bar> < 2 powi (expo y + 1)" using expo_bounds[of y] assms by simp
  ultimately have "(2::real) powi (expo x) < 2 powi (expo y + 1)" using assms by linarith
  then have "expo x < expo y + 1" by (rule powi2_less_imp)
  then show ?thesis by simp
qed

lemma fl64_minus: "fl64 (- x) = - fl64 x"
  by (simp add: fl64_def expo_minus round_even_minus Let_def)

lemma fl64_pos_bounds:
  assumes "0 < x"
  shows "2 powi (expo x) \<le> fl64 x \<and> fl64 x \<le> 2 powi (expo x + 1)"
proof -
  define u :: real where "u = 2 powi (expo x - 52)"
  have u0: "0 < u" by (simp add: u_def)
  have x0: "x \<noteq> 0" using assms by simp
  from expo_bounds[OF x0] assms have b: "2 powi (expo x) \<le> x" "x < 2 powi (expo x + 1)" by auto
  have e1: "(2::real) powi (expo x) = 2 ^ 52 * u"
    unfolding u_def by (simp add: power_int_diff)
  have e2: "(2::real) powi (expo x + 1) = 2 ^ 53 * u"
    unfolding u_def by (simp add: power_int_diff power_int_add)
  have q1: "of_int (2 ^ 52) \<le> x / u" using b(1) e1 u0 by (simp add: field_simps)
  have q2: "x / u \<le> of_int (2 ^ 53)" using b(2) e2 u0 by (simp add: field_simps)
  have m1: "2 ^ 52 \<le> round_even (x / u)"
    using round_even_mono[OF q1] by (simp only: round_even_of_int)
  have m2: "round_even (x / u) \<le> 2 ^ 53"
    using round_even_mono[OF q2] by (simp only: round_even_of_int)
  have f: "fl64 x = of_int (round_even (x / u)) * u" using x0 by (simp add: fl64_def u_def Let_def)
  have "(2::real) ^ 52 \<le> of_int (round_even (x / u))" using m1 by (metis of_int_le_iff of_int_numeral of_int_power)
  then have r1: "2 ^ 52 * u \<le> fl64 x" using u0 f by simp
  have "of_int (round_even (x / u)) \<le> (2::real) ^ 53" using m2 by (metis of_int_le_iff of_int_numeral of_int_power)
  then have r2: "fl64 x \<le> 2 ^ 53 * u" using u0 f by simp
  show ?thesis using r1 r2 e1 e2 by simp
qed

lemma fl64_pos: "0 < x \<Longrightarrow> 0 < fl64 x"
  using fl64_pos_bounds[of x] by (smt (verit) zero_less_power_int)

lemma fl64_zero_iff: "fl64 x = 0 \<longleftrightarrow> x = 0"
proof
  assume z: "fl64 x = 0"
  show "x = 0"
  proof (rule ccontr)
    assume "x \<noteq> 0"
    then consider "0 < x" | "0 < - x" by linarith
    then show False
    proof cases
      case 1 then show False using fl64_pos[of x] z by simp
    next
      case 2 then show False using fl64_pos[of "- x"] z by (simp add: fl64_minus)
    qed
  qed
qed (simp add: fl64_def)

lemma fl64_mono_pos:
  assumes "0 < x" "x \<le> y"
  shows "fl64 x \<le> fl64 y"
proof (cases "expo x = expo y")
  case True
  define u :: real where "u = 2 powi (expo x - 52)"
  have u0: "0 < u" by (simp add: u_def)
  have "x / u \<le> y / u" using assms u0 by (simp add: divide_right_mono)
  then have "round_even (x / u) \<le> round_even (y / u)" by (rule round_even_mono)
  then have "of_int (round_even (x / u)) * u \<le> of_int (round_even (y / u)) * u"
    using u0 by simp
  then show ?thesis using assms True by (simp add: fl64_def u_def Let_def)
next
  case False
  then have "expo x + 1 \<le> expo y" using expo_mono[OF assms] by simp
  then have "(2::real) powi (expo x + 1) \<le> 2 powi (expo y)"
    by (simp add: power_int_increasing)
  moreover have "fl64 x \<le> 2 powi (expo x + 1)" using fl64_pos_bounds[of x] assms by simp
  moreover have "2 powi (expo y) \<le> fl64 y" using fl64_pos_bounds[of y] assms by simp
  ultimately show ?thesis by linarith
qed

lemma fl64_mono:
  assumes "x \<le> y"
  shows "fl64 x \<le> fl64 y"
proof -
  consider "0 < x" | "x \<le> 0" "0 \<le> y" | "y < 0" by linarith
  then show ?thesis
  proof cases
    case 1 then show ?thesis using assms by (rule fl64_mono_pos)
  next
    case 2
    have "fl64 x \<le> 0"
    proof (cases "x = 0")
      case True then show ?thesis by (simp add: fl64_def)
    next
      case False
      then have "0 < - x" using 2 by simp
      then show ?thesis using fl64_pos[of "- x"] by (simp add: fl64_minus)
    qed
    moreover have "0 \<le> fl64 y"
    proof (cases "y = 0")
      case True then show ?thesis by (simp add: fl64_def)
    next
      case False
      then have "0 < y" using 2 by simp
      then show ?thesis using fl64_pos[of y] by simp
    qed
    ultimately show ?thesis by linarith
  next
    case 3
    then have "0 < - y" "- y \<le> - x" using assms by simp_all
    then have "fl64 (- y) \<le> fl64 (- x)" by (rule fl64_mono_pos)
    then show ?thesis by (simp add: fl64_minus)
  qed
qed

lemma fl64_exact:
  assumes "2 ^ 52 \<le> \<bar>m\<bar>" "\<bar>m\<bar> < 2 ^ 53"
  shows "fl64 (of_int m * 2 powi k) = of_int m * 2 powi k"
proof -
  define x :: real where "x = of_int m * 2 powi k"
  have am: "\<bar>x\<bar> = of_int \<bar>m\<bar> * 2 powi k" by (simp add: x_def abs_mult)
  have "(2::real) ^ 52 \<le> of_int \<bar>m\<bar>" using assms(1) by (metis of_int_le_iff of_int_numeral of_int_power)
  then have lo: "2 powi (k + 52) \<le> \<bar>x\<bar>" unfolding am by (simp add: power_int_add)
  have "of_int \<bar>m\<bar> < (2::real) ^ 53" using assms(2) by (metis of_int_less_iff of_int_numeral of_int_power)
  then have hi: "\<bar>x\<bar> < 2 powi (k + 52 + 1)" unfolding am by (simp add: power_int_add)
  have e: "expo x = k + 52" using lo hi by (rule expo_unique)
  have "(0::real) < 2 powi (k + 52)" by simp
  then have "0 < \<bar>x\<bar>" using lo by (rule less_le_trans)
  then have x0: "x \<noteq> 0" by simp
  have "x / 2 powi k = of_int m" by (simp add: x_def)
  then have "fl64 x = x" using x0 e by (simp add: fl64_def round_even_of_int Let_def x_def)
  then show ?thesis by (simp add: x_def)
qed

lemma fl64_idem: "fl64 (fl64 x) = fl64 x"
proof -
  have pos: "fl64 (fl64 x) = fl64 x" if "0 < x" for x
  proof -
    define u :: real where "u = 2 powi (expo x - 52)"
    define m where "m = round_even (x / u)"
    have u0: "0 < u" by (simp add: u_def)
    have f: "fl64 x = of_int m * 2 powi (expo x - 52)" using that by (simp add: fl64_def u_def m_def Let_def)
    have e1: "(2::real) powi (expo x) = 2 ^ 52 * u"
      unfolding u_def by (simp add: power_int_diff)
    have e2: "(2::real) powi (expo x + 1) = 2 ^ 53 * u"
      unfolding u_def by (simp add: power_int_diff power_int_add)
    from fl64_pos_bounds[OF that] have "2 ^ 52 * u \<le> of_int m * u" "of_int m * u \<le> 2 ^ 53 * u"
      using e1 e2 f by (simp_all add: u_def)
    then have "(2::real) ^ 52 \<le> of_int m" "of_int m \<le> (2::real) ^ 53" using u0 by simp_all
    then have mb: "2 ^ 52 \<le> m" "m \<le> 2 ^ 53" by (metis of_int_le_iff of_int_numeral of_int_power)+
    show ?thesis
    proof (cases "m = 2 ^ 53")
      case True
      have "fl64 x = of_int (2 ^ 52) * 2 powi (expo x - 51)"
        unfolding f True by (simp add: power_int_diff)
      moreover have "fl64 (of_int (2 ^ 52) * 2 powi (expo x - 51)) = of_int (2 ^ 52) * 2 powi (expo x - 51)"
        by (rule fl64_exact) simp_all
      ultimately show ?thesis by simp
    next
      case False
      then have "\<bar>m\<bar> < 2 ^ 53" "2 ^ 52 \<le> \<bar>m\<bar>" using mb by simp_all
      then show ?thesis unfolding f by (intro fl64_exact)
    qed
  qed
  consider "0 < x" | "x = 0" | "0 < - x" by linarith
  then show ?thesis
  proof cases
    case 1 then show ?thesis by (rule pos)
  next
    case 2 then show ?thesis by (simp add: fl64_def)
  next
    case 3
    from pos[OF 3] show ?thesis by (simp add: fl64_minus)
  qed
qed

text \<open>
  Evaluating \<open>fl64\<close> on a literal: the simplifier unfolds the definitions and
  computes the binade with the recursion of \<open>bitlen\<close>.
\<close>

lemmas fl64_eval = fl64_def expo_def compute_bitlen round_even_def Let_def power_int_minus

lemma fl64_0: "fl64 0 = 0"
  by (simp add: fl64_def)

lemma fl64_one: "fl64 1 = 1"
  by (simp add: fl64_def expo_def compute_bitlen round_even_def Let_def power_int_minus)

lemma fl64_half: "fl64 (1/2) = 1/2"
  by (simp add: fl64_def expo_def compute_bitlen round_even_def Let_def power_int_minus)

lemma fl64_quarter: "fl64 (1/4) = 1/4"
  by (simp add: fl64_eval)

lemma fl64_three_quarters: "fl64 (3/4) = 3/4"
  by (simp add: fl64_def expo_def compute_bitlen round_even_def Let_def power_int_minus)

lemma rounding_fl64: "rounding fl64"
  by (simp add: rounding_def fl64_mono fl64_idem fl64_zero_iff)

lemma rounding_id: "rounding (\<lambda>x. x)"
  by (simp add: rounding_def)

lemma env64_rounding: "rounding (rnd env64)"
  by (simp add: env64_def sampleEnv_def rounding_fl64)

lemma rounding_fixes: "rounding r \<Longrightarrow> fl64 x = x \<Longrightarrow> r x = x"
  unfolding rounding_def by blast

lemma rounding_mono: "rounding r \<Longrightarrow> x \<le> y \<Longrightarrow> r x \<le> r y"
  unfolding rounding_def by blast

lemma rounding_nonzero: "rounding r \<Longrightarrow> x \<noteq> 0 \<Longrightarrow> r x \<noteq> 0"
  unfolding rounding_def by blast

lemma rounding_idem: "rounding r \<Longrightarrow> r (r x) = r x"
  unfolding rounding_def by blast

lemma rounding_zero: "rounding r \<Longrightarrow> r 0 = 0"
  by (rule rounding_fixes) (simp_all add: fl64_0)

lemma rounding_one: "rounding r \<Longrightarrow> r 1 = 1"
  by (rule rounding_fixes) (simp_all add: fl64_one)

lemma rounding_pos: 
  assumes "rounding r" "0 < x"
  shows "0 < r x"
proof -
  have "r 0 \<le> r x" using assms by (simp add: rounding_mono)
  then have "0 \<le> r x" using rounding_zero[OF assms(1)] by simp
  moreover have "r x \<noteq> 0" using assms by (simp add: rounding_nonzero)
  ultimately show ?thesis by simp
qed

lemma rounding_unit:
  assumes "rounding r" "0 \<le> x" "x \<le> 1"
  shows "0 \<le> r x \<and> r x \<le> 1"
  using rounding_mono[OF assms(1,2)] rounding_mono[OF assms(1,3)]
    rounding_zero[OF assms(1)] rounding_one[OF assms(1)] by simp

section \<open>The ordered map\<close>

lemma map_of_map_insert: "map_of (map_insert k v m) = (map_of m)(k \<mapsto> v)"
  by (induction m) (auto simp: fun_eq_iff)

lemma sorted_keys_tail: "sorted_keys (kv # m) \<Longrightarrow> sorted_keys m"
  by (cases kv; cases m) auto

lemma sorted_keys_head_less:
  "sorted_keys ((k, v) # m) \<Longrightarrow> (k', v') \<in> set m \<Longrightarrow> k < k'"
proof (induction m arbitrary: k v)
  case Nil
  then show ?case by simp
next
  case (Cons a m)
  obtain ka va where a: "a = (ka, va)" by (cases a)
  from Cons.prems(1) a have lt: "k < ka" and s: "sorted_keys ((ka, va) # m)" by auto
  show ?case
  proof (cases "(k', v') = a")
    case True
    then show ?thesis using lt a by simp
  next
    case False
    then have "(k', v') \<in> set m" using Cons.prems(2) by simp
    from Cons.IH[OF s this] lt show ?thesis by simp
  qed
qed

lemma sorted_keys_Cons:
  "sorted_keys ((k, v) # m) \<longleftrightarrow> (\<forall>k' \<in> fst ` set m. k < k') \<and> sorted_keys m"
proof (induction m arbitrary: k v)
  case Nil
  then show ?case by simp
next
  case (Cons a m)
  obtain ka va where a: "a = (ka, va)" by (cases a)
  show ?case unfolding a using Cons.IH[of ka va] by auto
qed

lemma keys_map_insert: "fst ` set (map_insert k v m) = insert k (fst ` set m)"
proof (induction m)
  case Nil
  then show ?case by simp
next
  case (Cons a m)
  obtain ka va where a: "a = (ka, va)" by (cases a)
  consider "k < ka" | "ka < k" | "k = ka" by linarith
  then show ?case
  proof cases
    case 1
    then show ?thesis by (simp add: a)
  next
    case 2
    then show ?thesis using Cons.IH by (simp add: a insert_commute)
  next
    case 3
    then show ?thesis by (simp add: a)
  qed
qed

lemma fold_insert_keys:
  "fst ` set (fold (\<lambda>s m. map_insert (kf s) (vf s) m) sl m0) = kf ` set sl \<union> fst ` set m0"
  by (induction sl arbitrary: m0) (auto simp: keys_map_insert)

lemma lowerBound_hit:
  "sorted_keys m \<Longrightarrow> (k, v) \<in> set m \<Longrightarrow>
     lowerBound m k < length m \<and> m ! lowerBound m k = (k, v)"
proof (induction m)
  case Nil
  then show ?case by simp
next
  case (Cons a m)
  obtain ka va where a: "a = (ka, va)" by (cases a)
  show ?case
  proof (cases "ka < k")
    case True
    then have "(k, v) \<in> set m" using Cons.prems(2) a by auto
    with Cons.IH sorted_keys_tail[OF Cons.prems(1)] True a show ?thesis by simp
  next
    case False
    have "(k, v) = a"
    proof (rule ccontr)
      assume "(k, v) \<noteq> a"
      then have "(k, v) \<in> set m" using Cons.prems(2) by simp
      moreover have "sorted_keys ((ka, va) # m)" using Cons.prems(1) a by simp
      ultimately have "ka < k" by (rule sorted_keys_head_less[rotated])
      then show False using False by simp
    qed
    then show ?thesis using a by simp
  qed
qed

lemma lowerBound_before: "j < lowerBound m k \<Longrightarrow> fst (m ! j) < k"
proof (induction m arbitrary: j)
  case Nil
  then show ?case by simp
next
  case (Cons a m)
  then show ?case by (cases a; cases j) (auto split: if_splits)
qed

lemma lowerBound_at: "lowerBound m k < length m \<Longrightarrow> k \<le> fst (m ! lowerBound m k)"
proof (induction m)
  case Nil
  then show ?case by simp
next
  case (Cons a m)
  obtain ka va where a: "a = (ka, va)" by (cases a)
  show ?case
  proof (cases "ka < k")
    case True
    then show ?thesis using Cons a by simp
  next
    case False
    then show ?thesis using a by simp
  qed
qed

lemma lowerBound_finds: "m \<noteq> [] \<Longrightarrow> k \<le> fst (last m) \<Longrightarrow> lowerBound m k < length m"
proof (induction m)
  case Nil
  then show ?case by simp
next
  case (Cons a m)
  obtain ka va where a: "a = (ka, va)" by (cases a)
  show ?case
  proof (cases "m = []")
    case True
    then show ?thesis using Cons.prems a by simp
  next
    case False
    then have "lowerBound m k < length m" using Cons by simp
    then show ?thesis using a by simp
  qed
qed

lemma fromList_keys: "fst ` set (fromList sl) = Position ` set sl"
  unfolding fromList_def by (simp add: fold_insert_keys)

section \<open>Stop insertion\<close>

text \<open>
  C1. \<open>insertStop\<close> rejects a stop only when \<open>\<not> (0 < position \<or> position < 1)\<close>, which
  no real position satisfies: for every stop, whatever its position (also outside
  \<open>[0, 1]\<close>), and every gradient it returns true, and the stop set afterwards is the old
  one with the stop inserted at, or overwriting, the key \<open>Position stop\<close>. (A NaN position,
  which is not a value of the model, is the one input the test of the source rejects.)
\<close>

theorem insertStop_accepts_every_position:
  "insertStop stop d = (True, d\<lparr>stops := map_insert (Position stop) stop (stops d)\<rparr>)
   \<and> map_of (stops (snd (insertStop stop d))) = (map_of (stops d))(Position stop \<mapsto> stop)
   \<and> (fst (insertStop stop d) = False \<longleftrightarrow> \<not> (0 < Position stop \<or> Position stop < 1))"
proof -
  have "0 < Position stop \<or> Position stop < 1" by linarith
  then show ?thesis by (simp add: insertStop_def map_of_map_insert)
qed

section \<open>Truncation\<close>

text \<open>
  The loop that should drop the stops above 1 asks for the key of \<open>end()\<close>, so it cannot
  be run on a non-empty map; the branch that normalizes reads the last key through
  \<open>--constEnd()\<close> instead.
\<close>

lemma truncateHigh_eq: "truncateHigh m = (if m = [] then Inr [] else Inl InvalidIterator)"
  by (simp add: iter_key_def)

lemma truncateLow_empty_iff: "truncateLow m = [] \<longleftrightarrow> (\<forall>k \<in> fst ` set m. k < 0)"
proof (induction m)
  case Nil
  then show ?case by simp
next
  case (Cons a m)
  obtain ka va where a: "a = (ka, va)" by (cases a)
  show ?case using Cons.IH by (simp add: a)
qed

lemma addEndStops_empty: "addEndStops [] = Inr []"
  by (simp add: addEndStops_def)

text \<open>
  Hence truncate mode, on a list of two or more stops, has a defined run only when every
  position is negative, and then it leaves the empty set.
\<close>

lemma setStops_truncate:
  "setStops E (a # b # rest) TruncateStops d
     = (if \<forall>s \<in> set (a # b # rest). Position s < 0 then Inr (d\<lparr>stops := []\<rparr>)
        else Inl InvalidIterator)"
proof -
  let ?sl = "a # b # rest"
  have "truncateLow (fromList ?sl) = [] \<longleftrightarrow> (\<forall>s \<in> set ?sl. Position s < 0)"
    unfolding truncateLow_empty_iff fromList_keys by blast
  moreover have "setStops E ?sl TruncateStops d
      = bnd (truncateHigh (truncateLow (fromList ?sl))) (\<lambda>m.
        bnd (addEndStops m) (\<lambda>m'. Inr (d\<lparr>stops := m'\<rparr>)))"
    by (simp add: setStops_def Let_def)
  ultimately show ?thesis
    by (simp add: truncateHigh_eq addEndStops_empty bnd_def del: truncateHigh.simps)
qed

text \<open>
  C2. Spec: \<open>setStops([{-1, red}, {0.5, green}, {2, blue}], Truncate)\<close> drops the stops at
  -1 and 2 and leaves \<open>{0.0: green, 0.5: green, 1.0: green}\<close>. The source drops the stop at
  -1 and then dereferences \<open>stopsMap.end()\<close> in the test of the second loop: the run is
  undefined, whatever the colours and weights, and no stop set is produced.
\<close>

theorem setStops_truncate_reads_end:
  "setStops E [\<lparr>Position = -1, Color = r, Weight = w1\<rparr>,
               \<lparr>Position = 1/2, Color = g, Weight = w2\<rparr>,
               \<lparr>Position = 2, Color = b, Weight = w3\<rparr>] TruncateStops d
   = Inl InvalidIterator"
  by (simp add: setStops_def fromList_def iter_key_def bnd_def)

section \<open>Spread\<close>

lemma trunc_small: "0 \<le> x \<Longrightarrow> x < 1 \<Longrightarrow> trunc x = 0"
  by (simp add: trunc_def floor_eq_iff)

lemma trunc_of_int: "trunc (of_int n) = n"
  by (simp add: trunc_def)

lemma trunc_int_plus:
  "0 \<le> x \<Longrightarrow> x < 1 \<Longrightarrow> trunc (of_int j + x) = (if 0 \<le> j \<or> x = 0 then j else j + 1)"
  unfolding trunc_def by (auto simp: floor_eq_iff ceiling_eq_iff)

lemma trunc_frac:
  "\<bar>x - of_int (trunc x)\<bar> < 1"
proof (cases "0 \<le> x")
  case True
  have "of_int \<lfloor>x\<rfloor> \<le> x" "x < of_int \<lfloor>x\<rfloor> + 1" by linarith+
  then have "\<bar>x - of_int \<lfloor>x\<rfloor>\<bar> < 1" by linarith
  then show ?thesis using True by (simp only: trunc_def if_True)
next
  case False
  have "x \<le> of_int \<lceil>x\<rceil>" "of_int \<lceil>x\<rceil> < x + 1" by linarith+
  then have "\<bar>x - of_int \<lceil>x\<rceil>\<bar> < 1" by linarith
  then show ?thesis using False by (simp only: trunc_def if_False)
qed

lemma fmod_range:
  assumes "0 < y"
  shows "\<bar>fmod x y\<bar> < y"
proof -
  have "fmod x y = y * (x / y - of_int (trunc (x / y)))"
    using assms by (simp add: fmod_def algebra_simps)
  then have "\<bar>fmod x y\<bar> = y * \<bar>x / y - of_int (trunc (x / y))\<bar>"
    using assms by (simp add: abs_mult)
  also have "\<dots> < y * 1" using trunc_frac[of "x / y"] assms by (intro mult_strict_left_mono)
  finally show ?thesis by simp
qed

lemma fmod_int_1: "fmod (of_int n) 1 = 0"
  by (simp add: fmod_def trunc_of_int)

lemma abs_fmod_int_2: "\<bar>fmod (of_int n) 2\<bar> = (if even n then 0 else 1)"
proof (cases "even n")
  case True
  then obtain j where n: "n = 2 * j" by (elim evenE)
  have "of_int n / (2::real) = of_int j" by (simp add: n)
  then show ?thesis using True by (simp add: fmod_def trunc_of_int n)
next
  case False
  then obtain j where n: "n = 2 * j + 1" by (elim oddE)
  have q: "of_int n / (2::real) = of_int j + 1/2" by (simp add: n field_simps)
  have "trunc (of_int n / 2) = (if 0 \<le> j then j else j + 1)"
    unfolding q using trunc_int_plus[of "1/2" j] by simp
  then show ?thesis using False by (simp add: fmod_def n)
qed

lemma fmod_half_1: "fmod (of_int n + 1/2) 1 = (if 0 \<le> n then 1/2 else - 1/2)"
  using trunc_int_plus[of "1/2" n] by (simp add: fmod_def)

lemma abs_fmod_half_2:
  "\<bar>fmod (of_int n + 1/2) 2\<bar> = (if even n \<longleftrightarrow> 0 \<le> n then 1/2 else 3/2)"
proof (cases "even n")
  case True
  then obtain j where n: "n = 2 * j" by (elim evenE)
  have q: "(of_int n + 1/2) / (2::real) = of_int j + 1/4" by (simp add: n field_simps)
  have "trunc ((of_int n + 1/2) / 2) = (if 0 \<le> j then j else j + 1)"
    unfolding q using trunc_int_plus[of "1/4" j] by simp
  then show ?thesis using True by (auto simp: fmod_def n)
next
  case False
  then obtain j where n: "n = 2 * j + 1" by (elim oddE)
  have q: "(of_int n + 1/2) / (2::real) = of_int j + 3/4" by (simp add: n field_simps)
  have "trunc ((of_int n + 1/2) / 2) = (if 0 \<le> j then j else j + 1)"
    unfolding q using trunc_int_plus[of "3/4" j] by simp
  then show ?thesis using False by (auto simp: fmod_def n)
qed

lemma spreadPos_in_place:
  assumes "0 \<le> p" "p \<le> 1" "s = RepeatSpread \<longrightarrow> p < 1"
  shows "spreadPos E s p = p"
proof (cases s)
  case PadSpread
  then show ?thesis using assms by (simp add: spreadPos_def qBound_def)
next
  case ReflectSpread
  have "trunc (p / 2) = 0" using assms by (intro trunc_small) simp_all
  then show ?thesis using assms ReflectSpread by (simp add: spreadPos_def fmod_def)
next
  case RepeatSpread
  then have "trunc p = 0" using assms by (intro trunc_small) simp_all
  then show ?thesis using assms RepeatSpread by (simp add: spreadPos_def fmod_def)
qed

lemma spreadPos_range:
  assumes r: "rounding (rnd E)"
  shows "0 \<le> spreadPos E s p \<and> spreadPos E s p \<le> 1"
proof (cases s)
  case PadSpread
  then show ?thesis by (simp add: spreadPos_def qBound_def)
next
  case ReflectSpread
  have b: "\<bar>fmod p 2\<bar> < 2" by (rule fmod_range) simp
  show ?thesis
  proof (cases "1 < \<bar>fmod p 2\<bar>")
    case True
    then have "0 \<le> 2 - \<bar>fmod p 2\<bar>" "2 - \<bar>fmod p 2\<bar> \<le> 1" using b by simp_all
    from rounding_unit[OF r this] show ?thesis using True ReflectSpread
      by (simp add: spreadPos_def Let_def fsub_def)
  next
    case False
    then show ?thesis using ReflectSpread by (simp add: spreadPos_def Let_def)
  qed
next
  case RepeatSpread
  have "\<bar>fmod p 1\<bar> < 1" by (rule fmod_range) simp
  then have b: "- 1 < fmod p 1" "fmod p 1 < 1" by (simp_all add: abs_less_iff)
  show ?thesis
  proof (cases "fmod p 1 < 0")
    case True
    then have "0 \<le> 1 + fmod p 1" "1 + fmod p 1 \<le> 1" using b by simp_all
    from rounding_unit[OF r this] show ?thesis using True RepeatSpread
      by (simp add: spreadPos_def Let_def fadd_def)
  next
    case False
    then show ?thesis using b RepeatSpread by (simp add: spreadPos_def Let_def)
  qed
qed

lemma spreadPos_5_4:
  assumes "rounding (rnd E)"
  shows "spreadPos E RepeatSpread (5/4) = 1/4"
    and "spreadPos E ReflectSpread (5/4) = 3/4"
    and "spreadPos E PadSpread (5/4) = 1"
    and "spreadPos E RepeatSpread (1/4) = 1/4"
    and "spreadPos E ReflectSpread (3/4) = 3/4"
    and "spreadPos E PadSpread 1 = 1"
  using rounding_fixes[OF assms fl64_three_quarters]
  by (simp_all add: spreadPos_def fmod_def trunc_def qBound_def fsub_def)

lemma at_color_spread_cong:
  "spreadPos E (spread d) p = spreadPos E (spread d) q \<Longrightarrow> at_color E d p = at_color E d q"
  by (simp add: at_color_def)

text \<open>
  C6. The spread step of \<open>at\<close>: pad clamps the position to \<open>[0, 1]\<close>; repeat takes
  \<open>fmod(p, 1)\<close> and adds 1 to a negative remainder; reflect takes \<open>q = |fmod(p, 2)|\<close> and
  returns \<open>2 - q\<close> when \<open>q > 1\<close>, else \<open>q\<close>. On integers and half-integers the results are
  exact: an integer goes to 0 under repeat and to 0 or 1, by its parity, under reflect; a
  half-integer goes to 1/2 under both. So, for every gradient, \<open>at(1.25)\<close> is \<open>at(0.25)\<close>
  under repeat, \<open>at(0.75)\<close> under reflect and \<open>at(1.0)\<close> under pad.
\<close>

theorem spread_normalization:
  assumes r: "rounding (rnd E)"
  shows "spreadPos E PadSpread p = (if p < 0 then 0 else if 1 < p then 1 else p)
    \<and> spreadPos E RepeatSpread p = (if fmod p 1 < 0 then rnd E (1 + fmod p 1) else fmod p 1)
    \<and> spreadPos E ReflectSpread p
        = (if 1 < \<bar>fmod p 2\<bar> then rnd E (2 - \<bar>fmod p 2\<bar>) else \<bar>fmod p 2\<bar>)
    \<and> spreadPos E RepeatSpread (of_int n) = 0
    \<and> spreadPos E ReflectSpread (of_int n) = (if even n then 0 else 1)
    \<and> spreadPos E RepeatSpread (of_int n + 1/2) = 1/2
    \<and> spreadPos E ReflectSpread (of_int n + 1/2) = 1/2
    \<and> at_color E (d\<lparr>spread := RepeatSpread\<rparr>) (5/4) = at_color E (d\<lparr>spread := RepeatSpread\<rparr>) (1/4)
    \<and> at_color E (d\<lparr>spread := ReflectSpread\<rparr>) (5/4) = at_color E (d\<lparr>spread := ReflectSpread\<rparr>) (3/4)
    \<and> at_color E (d\<lparr>spread := PadSpread\<rparr>) (5/4) = at_color E (d\<lparr>spread := PadSpread\<rparr>) 1"
proof -
  have h: "rnd E (1/2) = 1/2" using rounding_fixes[OF r fl64_half] .
  have 1: "spreadPos E PadSpread p = (if p < 0 then 0 else if 1 < p then 1 else p)"
    by (simp add: spreadPos_def qBound_def)
  have 2: "spreadPos E RepeatSpread p = (if fmod p 1 < 0 then rnd E (1 + fmod p 1) else fmod p 1)"
    by (simp add: spreadPos_def fadd_def Let_def)
  have 3: "spreadPos E ReflectSpread p
        = (if 1 < \<bar>fmod p 2\<bar> then rnd E (2 - \<bar>fmod p 2\<bar>) else \<bar>fmod p 2\<bar>)"
    by (simp add: spreadPos_def fsub_def Let_def)
  have 4: "spreadPos E RepeatSpread (of_int n) = 0"
    by (simp add: spreadPos_def fmod_int_1)
  have 5: "spreadPos E ReflectSpread (of_int n) = (if even n then 0 else 1)"
    by (simp add: spreadPos_def abs_fmod_int_2)
  have 6: "spreadPos E RepeatSpread (of_int n + 1/2) = 1/2"
    using h by (simp add: spreadPos_def fmod_half_1 fadd_def)
  have 7: "spreadPos E ReflectSpread (of_int n + 1/2) = 1/2"
    using h by (simp add: spreadPos_def abs_fmod_half_2 fsub_def)
  have 8: "at_color E (d\<lparr>spread := RepeatSpread\<rparr>) (5/4) = at_color E (d\<lparr>spread := RepeatSpread\<rparr>) (1/4)"
    by (rule at_color_spread_cong) (simp add: spreadPos_5_4[OF r])
  have 9: "at_color E (d\<lparr>spread := ReflectSpread\<rparr>) (5/4) = at_color E (d\<lparr>spread := ReflectSpread\<rparr>) (3/4)"
    by (rule at_color_spread_cong) (simp add: spreadPos_5_4[OF r])
  have 10: "at_color E (d\<lparr>spread := PadSpread\<rparr>) (5/4) = at_color E (d\<lparr>spread := PadSpread\<rparr>) 1"
    by (rule at_color_spread_cong) (simp add: spreadPos_5_4[OF r])
  from 1 2 3 4 5 6 7 8 9 10 show ?thesis by (intro conjI)
qed

text \<open>
  C6, at concrete inputs in binary64: 1.25 padded, 1.0 repeated, 1.5 reflected, -2.5
  repeated, and the black-to-white gradient under reflect.
\<close>

theorem spread_normalization_witness:
  "rounding (rnd env64)
   \<and> spreadPos env64 PadSpread (5/4) = 1
   \<and> spreadPos env64 RepeatSpread 1 = 0
   \<and> spreadPos env64 ReflectSpread (3/2) = 1/2
   \<and> spreadPos env64 RepeatSpread (- 5/2) = 1/2
   \<and> at_color env64 (blackWhite\<lparr>spread := ReflectSpread\<rparr>) (5/4)
       = at_color env64 (blackWhite\<lparr>spread := ReflectSpread\<rparr>) (3/4)"
proof -
  have a: "of_int 1 = (1::real)" "of_int 1 + 1/2 = (3/2::real)" "of_int (- 3) + 1/2 = (- 5/2::real)"
    by simp_all
  from spread_normalization[OF env64_rounding, of "5/4" 1 blackWhite]
    spread_normalization[OF env64_rounding, of 0 "- 3" blackWhite] env64_rounding
  show ?thesis unfolding a by simp
qed

section \<open>The colour at a position\<close>

text \<open>
  C7. On a gradient without stops \<open>at\<close> returns \<open>Qt::transparent\<close>, and on a gradient with
  exactly one stop it returns the colour of that stop, for every query position.
\<close>

theorem at_empty_and_single_stop:
  "at_color E (d\<lparr>stops := []\<rparr>) p = Inr (transparent E)
   \<and> at_color E (d\<lparr>stops := [(k, stop)]\<rparr>) p = Inr (Color stop)"
  by (simp add: at_color_def stopColor_def iter_value_def bnd_def)

lemma qFuzzyCompare_same: "rnd E 0 = 0 \<Longrightarrow> qFuzzyCompare E p p"
  by (simp add: qFuzzyCompare_def fmul_def fsub_def)

lemma stopColor_valid: "i < length m \<Longrightarrow> stopColor m i = Inr (Color (snd (m ! i)))"
  by (simp add: stopColor_def iter_value_def bnd_def)

text \<open>
  C4 as the spec states it: \<open>at(p)\<close> returns the colour of the stop at \<open>p\<close> for every
  position \<open>p\<close> that is the key of a stop, under every spread. It fails on the gradient of
  the default constructor under repeat at \<open>p = 1.0\<close>: \<open>fmod(1.0, 1.0)\<close> is 0, so the lookup finds
  the stop at 0 and returns black, while the stop at 1 is white.
\<close>

theorem at_repeat_one_counterexample:
  "at_color env64 (blackWhite\<lparr>spread := RepeatSpread\<rparr>) 1 = Inr black
   \<and> map_of (stops (blackWhite\<lparr>spread := RepeatSpread\<rparr>)) 1 = Some (mkStop 1 white)
   \<and> Color (mkStop 1 white :: rgba Stop) \<noteq> black"
  by (simp add: at_color_def blackWhite_def spreadPos_def fmod_def trunc_def iter_key_def
      qFuzzyCompare_def fmul_def fsub_def env64_def sampleEnv_def fl64_0 stopColor_def
      iter_value_def bnd_def mkStop_def black_def white_def)

text \<open>
  C4, amended. For every gradient with at least one stop (its map well formed), every
  interpolation mode and every query position \<open>p\<close> that is the key of a stop and that the
  spread leaves in place, that is \<open>0 \<le> p \<le> 1\<close> under pad and reflect and \<open>0 \<le> p < 1\<close> under
  repeat, \<open>at(p)\<close> returns exactly the colour of that stop. All it needs of the arithmetic is
  that \<open>p - p\<close> rounds to 0.
\<close>

theorem at_exact_stop_in_place:
  assumes sorted: "sorted_keys (stops d)"
    and stop: "(p, stop) \<in> set (stops d)"
    and zero: "rnd E 0 = 0"
    and range: "0 \<le> p" "p \<le> 1" "spread d = RepeatSpread \<longrightarrow> p < 1"
  shows "at_color E d p = Inr (Color stop)"
proof (cases "length (stops d) < 2")
  case True
  then have "stops d = [(p, stop)]" using stop by (cases "stops d") auto
  then show ?thesis by (simp add: at_color_def stopColor_def iter_value_def bnd_def)
next
  case False
  have sp: "spreadPos E (spread d) p = p" using range by (rule spreadPos_in_place)
  from lowerBound_hit[OF sorted stop]
  have lb: "lowerBound (stops d) p < length (stops d)"
    "stops d ! lowerBound (stops d) p = (p, stop)" by auto
  have ne: "stops d \<noteq> []" using stop by auto
  show ?thesis using False ne sp lb qFuzzyCompare_same[OF zero]
    by (simp add: at_color_def Let_def iter_key_def stopColor_def iter_value_def bnd_def)
qed

text \<open>
  C4, amended, on the black-to-white gradient at \<open>p = 1\<close> under pad, in binary64.
\<close>

theorem at_exact_stop_in_place_witness:
  "sorted_keys (stops blackWhite) \<and> (1, mkStop 1 white) \<in> set (stops blackWhite)
   \<and> rnd env64 0 = 0 \<and> at_color env64 blackWhite 1 = Inr white"
proof -
  have 1: "sorted_keys (stops blackWhite)" by (simp add: blackWhite_def)
  have 2: "(1, mkStop 1 white) \<in> set (stops blackWhite)" by (simp add: blackWhite_def)
  have 3: "rnd env64 0 = 0" by (simp add: env64_def sampleEnv_def fl64_0)
  have 4: "spread blackWhite = RepeatSpread \<longrightarrow> (1::real) < 1" by (simp add: blackWhite_def)
  from at_exact_stop_in_place[OF 1 2 3 _ _ 4] 1 2 3 show ?thesis by (simp add: mkStop_def)
qed

text \<open>
  The quotients of \<open>linearBlend\<close> and the first quotient of \<open>cubicBlend\<close> have a nonzero
  divisor whenever the relative position lies in \<open>(0, 1]\<close>: \<open>1 - w\<close> is taken only when
  \<open>w < t \<le> 1\<close>, and \<open>w\<close> only when \<open>0 < t \<le> w\<close>. The second quotient of \<open>cubicBlend\<close>
  is clamped into \<open>[0, 1]\<close> whatever its divisor. So both return a colour.
\<close>

lemma linearBlend_total:
  assumes r: "rounding (rnd E)" and t: "0 < t" "t \<le> 1"
  shows "\<exists>c. linearBlend E d a b t w = Inr c"
proof (cases "t > w")
  case True
  then have "0 < 1 - w" using t by simp
  from rounding_pos[OF r this] have "fsub E 1 w \<noteq> 0" by (simp add: fsub_def)
  then obtain q where q: "fdiv E (fsub E t w) (fsub E 1 w) = Inr q" by (simp add: fdiv_def)
  show ?thesis using True q by (simp add: linearBlend_def bnd_def)
next
  case False
  then have "w \<noteq> 0" using t by simp
  then obtain q where q: "fdiv E t w = Inr q" by (simp add: fdiv_def)
  show ?thesis using False q by (simp add: linearBlend_def bnd_def)
qed

lemma clampedQuotient_unit: "0 \<le> clampedQuotient E x y \<and> clampedQuotient E x y \<le> 1"
  by (simp add: clampedQuotient_def qBound_def)

lemma cubicBlend_total:
  assumes r: "rounding (rnd E)" and t: "0 < t" "t \<le> 1"
  shows "\<exists>col. cubicBlend E d a b c dd t = Inr col"
proof (cases "t > Weight b")
  case True
  then have "0 < 1 - Weight b" using t by simp
  from rounding_pos[OF r this] have "fsub E 1 (Weight b) \<noteq> 0" by (simp add: fsub_def)
  then obtain q where q: "fdiv E (fsub E t (Weight b)) (fsub E 1 (Weight b)) = Inr q"
    by (simp add: fdiv_def)
  show ?thesis using True q by (simp add: cubicBlend_def Let_def bnd_def)
next
  case False
  then have "Weight b \<noteq> 0" using t by simp
  then obtain q where q: "fdiv E t (Weight b) = Inr q" by (simp add: fdiv_def)
  show ?thesis using False q by (simp add: cubicBlend_def Let_def bnd_def)
qed

text \<open>
  The lookup of \<open>at\<close> on a gradient whose first key is 0 and whose last key is 1.
\<close>

lemma at_color_in_range:
  assumes r: "rounding (rnd E)"
    and n: "2 \<le> length (stops d)"
    and lo: "fst (hd (stops d)) = 0"
    and hi: "fst (last (stops d)) = 1"
  shows "0 \<le> spreadPos E (spread d) p \<and> spreadPos E (spread d) p \<le> 1
     \<and> lowerBound (stops d) (spreadPos E (spread d) p) < length (stops d)
     \<and> (lowerBound (stops d) (spreadPos E (spread d) p) = 0
          \<longrightarrow> qFuzzyCompare E (spreadPos E (spread d) p) (fst (stops d ! 0)))
     \<and> at_color E d p \<noteq> Inl InvalidIterator
     \<and> (\<exists>c. at_color E d p = Inr c)"
proof -
  let ?m = "stops d"
  let ?pos = "spreadPos E (spread d) p"
  let ?su = "lowerBound ?m ?pos"
  let ?ku = "fst (?m ! ?su)"
  let ?sl = "?su - 1"
  let ?kl = "fst (?m ! ?sl)"
  have ne: "?m \<noteq> []" using n by auto
  have len2: "\<not> length ?m < 2" using n by simp
  from spreadPos_range[OF r] have range: "0 \<le> ?pos" "?pos \<le> 1" by simp_all
  have su_lt: "?su < length ?m" using ne range hi by (simp add: lowerBound_finds)
  have ik: "iter_key ?m ?su = Inr ?ku" using su_lt by (simp add: iter_key_def)
  have pos_le: "?pos \<le> ?ku" using su_lt by (rule lowerBound_at)
  have k0: "fst (?m ! 0) = 0" using lo ne by (simp add: hd_conv_nth)
  have fz0: "qFuzzyCompare E ?pos (fst (?m ! 0))" if "?su = 0"
  proof -
    from pos_le that k0 have "?pos \<le> 0" by simp
    with range have "?pos = 0" by simp
    then show ?thesis using k0 qFuzzyCompare_same[OF rounding_zero[OF r]] by simp
  qed
  have main: "\<exists>c. at_color E d p = Inr c"
  proof (cases "qFuzzyCompare E ?pos ?ku")
    case True
    have "at_color E d p = stopColor ?m ?su"
      using ne len2 ik True by (simp add: at_color_def Let_def bnd_def)
    then show ?thesis using stopColor_valid[OF su_lt] by simp
  next
    case nf: False
    have su0: "0 < ?su" using fz0 nf by (cases "?su = 0") auto
    have im: "iter_minus ?su 1 = Inr ?sl" using su0 by (simp add: iter_minus_def)
    have sl_lt: "?sl < length ?m" using su_lt by simp
    have ikl: "iter_key ?m ?sl = Inr ?kl" using sl_lt by (simp add: iter_key_def)
    have kl_lt: "?kl < ?pos" using su0 by (intro lowerBound_before) simp
    have num: "0 < fsub E ?pos ?kl" using rounding_pos[OF r, of "?pos - ?kl"] kl_lt
      by (simp add: fsub_def)
    have den: "fsub E ?pos ?kl \<le> fsub E ?ku ?kl" using pos_le
      by (simp add: fsub_def rounding_mono[OF r])
    define rpos where "rpos = rnd E (fsub E ?pos ?kl / fsub E ?ku ?kl)"
    have fd: "fdiv E (fsub E ?pos ?kl) (fsub E ?ku ?kl) = Inr rpos"
      using num den by (simp add: fdiv_def rpos_def)
    have q: "0 < fsub E ?pos ?kl / fsub E ?ku ?kl" "fsub E ?pos ?kl / fsub E ?ku ?kl \<le> 1"
      using num den by simp_all
    have rp: "0 < rpos" "rpos \<le> 1"
      using rounding_pos[OF r q(1)] rounding_unit[OF r _ q(2)] q(1) by (simp_all add: rpos_def)
    have ivl: "iter_value ?m ?sl = Inr (snd (?m ! ?sl))" using sl_lt by (simp add: iter_value_def)
    have ivu: "iter_value ?m ?su = Inr (snd (?m ! ?su))" using su_lt by (simp add: iter_value_def)
    show ?thesis
    proof (cases "qFuzzyCompare E ?pos ?kl")
      case True
      have "at_color E d p = stopColor ?m ?sl"
        using ne len2 ik nf im ikl fd True by (simp add: at_color_def Let_def bnd_def)
      then show ?thesis using stopColor_valid[OF sl_lt] by simp
    next
      case nf2: False
      have eq: "at_color E d p =
          (case func (interpolateMode d) of
             InterpolateDiscrete \<Rightarrow>
               Inr (if rpos < Weight (snd (?m ! ?sl)) then Color (snd (?m ! ?sl))
                    else Color (snd (?m ! ?su)))
           | InterpolateCubic \<Rightarrow>
               bnd (if ?sl = 0 then Inr ?sl else iter_minus ?sl 1) (\<lambda>sll.
               bnd (iter_value ?m sll) (\<lambda>vll.
               bnd (iter_value ?m (if Suc ?su = length ?m then ?su else Suc ?su)) (\<lambda>vuu.
               cubicBlend E d vll (snd (?m ! ?sl)) (snd (?m ! ?su)) vuu rpos)))
           | InterpolateLinear \<Rightarrow>
               linearBlend E d (Color (snd (?m ! ?sl))) (Color (snd (?m ! ?su))) rpos
                 (Weight (snd (?m ! ?sl))))"
        using ne len2 ik nf im ikl fd nf2 ivl ivu
        by (simp add: at_color_def Let_def bnd_def del: One_nat_def split del: if_split)
      show ?thesis
      proof (cases "func (interpolateMode d)")
        case InterpolateDiscrete
        then show ?thesis unfolding eq by simp
      next
        case InterpolateLinear
        from linearBlend_total[OF r rp] obtain c where
          "linearBlend E d (Color (snd (?m ! ?sl))) (Color (snd (?m ! ?su))) rpos
             (Weight (snd (?m ! ?sl))) = Inr c" by blast
        then have "at_color E d p = Inr c" unfolding eq by (simp add: InterpolateLinear)
        then show ?thesis by simp
      next
        case InterpolateCubic
        define sll where "sll = (if ?sl = 0 then ?sl else ?sl - 1)"
        define suu where "suu = (if Suc ?su = length ?m then ?su else Suc ?su)"
        have a: "(if ?sl = 0 then Inr ?sl else iter_minus ?sl 1) = Inr sll"
          by (auto simp: sll_def iter_minus_def)
        have "sll \<le> ?sl" unfolding sll_def by (cases "?sl = 0") simp_all
        then have "sll < length ?m" using sl_lt by (rule le_less_trans)
        then have b: "iter_value ?m sll = Inr (snd (?m ! sll))"
          by (simp add: iter_value_def)
        have "suu < length ?m" using su_lt by (cases "Suc ?su = length ?m") (simp_all add: suu_def)
        then have c: "iter_value ?m suu = Inr (snd (?m ! suu))"
          by (simp add: iter_value_def)
        have "at_color E d p
            = cubicBlend E d (snd (?m ! sll)) (snd (?m ! ?sl)) (snd (?m ! ?su)) (snd (?m ! suu)) rpos"
          unfolding eq using a b c
          by (simp add: InterpolateCubic bnd_def suu_def[symmetric] del: One_nat_def
              split del: if_split)
        moreover from cubicBlend_total[OF r rp] obtain col where
          "cubicBlend E d (snd (?m ! sll)) (snd (?m ! ?sl)) (snd (?m ! ?su)) (snd (?m ! suu)) rpos
             = Inr col" by blast
        ultimately show ?thesis by simp
      qed
    qed
  qed
  from main obtain c where c: "at_color E d p = Inr c" by blast
  then have "at_color E d p \<noteq> Inl InvalidIterator" by simp
  then show ?thesis using range su_lt fz0 c by blast
qed

text \<open>
  C10. For every gradient with at least two stops whose smallest key is 0 and whose
  largest key is 1, every interpolation mode (discrete, linear and cubic), every spread and
  every real query position: the position after the spread step lies in \<open>[0, 1]\<close>;
  \<open>lowerBound\<close> returns a valid iterator; when it returns \<open>begin()\<close> the position is 0 and
  matches the first key, so \<open>su - 1\<close> is formed only when a predecessor exists; \<open>at\<close> never
  dereferences an invalid iterator; and \<open>at\<close> returns a colour.
\<close>

theorem at_lookup_in_range:
  assumes "rounding (rnd E)"
    and "2 \<le> length (stops d)"
    and "fst (hd (stops d)) = 0"
    and "fst (last (stops d)) = 1"
  shows "0 \<le> spreadPos E (spread d) p \<and> spreadPos E (spread d) p \<le> 1
     \<and> lowerBound (stops d) (spreadPos E (spread d) p) < length (stops d)
     \<and> (lowerBound (stops d) (spreadPos E (spread d) p) = 0
          \<longrightarrow> qFuzzyCompare E (spreadPos E (spread d) p) (fst (stops d ! 0)))
     \<and> at_color E d p \<noteq> Inl InvalidIterator
     \<and> (\<exists>c. at_color E d p = Inr c)"
  using assms by (rule at_color_in_range)

lemma cubic_facts:
  "spreadPos env64 PadSpread (3/4) = 3/4"
  "\<not> qFuzzyCompare env64 (3/4) 1"
  "\<not> qFuzzyCompare env64 (3/4) 0"
  "fdiv env64 (fsub env64 (3/4) 0) (fsub env64 1 0) = Inr (3/4)"
  "fdiv env64 (fsub env64 (3/4) (1/2)) (fsub env64 1 (1/2)) = Inr (1/2)"
  "clampedQuotient env64 (fsub env64 (25/32) (1/2)) (fsub env64 1 (1/2)) = 9/16"
  by (simp_all add: spreadPos_def qBound_def clampedQuotient_def qFuzzyCompare_def fdiv_def
      fmul_def fsub_def env64_def sampleEnv_def fl64_eval)

lemma cubicBlend_blackWhite:
  "cubicBlend env64 blackWhiteCubic (mkStop 0 black) (mkStop 0 black) (mkStop 1 white)
     (mkStop 1 white) (3/4)
   = Inr (mixColor4 black (Rgba (1/2) (1/2) (1/2) 1) white white (9/16) Rgb)"
proof -
  have b: "blendReal env64 = mix" "blendReal4 env64 = mix4" "blendColor env64 = mixColor"
    "blendColor4 env64 = mixColor4" by (simp_all add: env64_def sampleEnv_def)
  have m: "mix4 0 (1/2) 1 1 (1/2) = 25/32" "mix 0 1 (1/2) = 1/2" "mix 0 0 (1/2) = 0"
    "mix 1 1 (1/2) = 1"
    by (simp_all add: mix4_def mix_def power2_eq_square power3_eq_cube)
  have c: "mixColor black black (1/2) Rgb = black" "mixColor white white (1/2) Rgb = white"
    "mixColor black white (1/2) Rgb = Rgba (1/2) (1/2) (1/2) 1"
    by (simp_all add: black_def white_def mix_def)
  have s: "blendSpace blackWhiteCubic = Rgb"
    by (simp add: blendSpace_def blackWhiteCubic_def blackWhite_def)
  show ?thesis
    by (simp add: cubicBlend_def Let_def blend_def mkStop_def b m c s cubic_facts bnd_def)
qed

lemma at_blackWhiteCubic:
  "at_color env64 blackWhiteCubic (3/4)
     = Inr (mixColor4 black (Rgba (1/2) (1/2) (1/2) 1) white white (9/16) Rgb)"
proof -
  have "at_color env64 blackWhiteCubic (3/4)
      = cubicBlend env64 blackWhiteCubic (mkStop 0 black) (mkStop 0 black) (mkStop 1 white)
          (mkStop 1 white) (3/4)"
    by (simp add: at_color_def blackWhiteCubic_def blackWhite_def Let_def cubic_facts
        iter_key_def iter_value_def iter_minus_def bnd_def)
  then show ?thesis by (simp only: cubicBlend_blackWhite)
qed

text \<open>
  C10 on the black-to-white gradient with cubic interpolation at the position 3/4, in
  binary64: the lookup finds the stop at 1, its predecessor is the stop at 0, the relative
  position is 3/4, and \<open>cubicBlend\<close> returns the spline colour at the clamped quotient
  9/16.
\<close>

theorem at_lookup_in_range_witness:
  "rounding (rnd env64) \<and> 2 \<le> length (stops blackWhiteCubic)
   \<and> fst (hd (stops blackWhiteCubic)) = 0 \<and> fst (last (stops blackWhiteCubic)) = 1
   \<and> lowerBound (stops blackWhiteCubic) (spreadPos env64 (spread blackWhiteCubic) (3/4)) < 2
   \<and> func (interpolateMode blackWhiteCubic) = InterpolateCubic
   \<and> at_color env64 blackWhiteCubic (3/4) \<noteq> Inl InvalidIterator
   \<and> (\<exists>c. at_color env64 blackWhiteCubic (3/4) = Inr c)
   \<and> at_color env64 blackWhiteCubic (3/4)
       = Inr (mixColor4 black (Rgba (1/2) (1/2) (1/2) 1) white white (9/16) Rgb)"
proof -
  have r: "rounding (rnd env64)" by (simp add: env64_def sampleEnv_def rounding_fl64)
  have n: "2 \<le> length (stops blackWhiteCubic)" by (simp add: blackWhiteCubic_def blackWhite_def)
  have lo: "fst (hd (stops blackWhiteCubic)) = 0" by (simp add: blackWhiteCubic_def blackWhite_def)
  have hi: "fst (last (stops blackWhiteCubic)) = 1" by (simp add: blackWhiteCubic_def blackWhite_def)
  have m: "func (interpolateMode blackWhiteCubic) = InterpolateCubic"
    "length (stops blackWhiteCubic) = 2" by (simp_all add: blackWhiteCubic_def blackWhite_def)
  from at_lookup_in_range[OF r n lo hi, of "3/4"] r n lo hi m at_blackWhiteCubic
  show ?thesis by simp
qed

section \<open>Rendering\<close>

lemma collect_Inr:
  "collect rs = Inr xs \<Longrightarrow> length xs = length rs \<and> (\<forall>i < length rs. rs ! i = Inr (xs ! i))"
proof (induction rs arbitrary: xs)
  case Nil
  then show ?case by simp
next
  case (Cons a rs)
  from Cons.prems obtain x ys where a: "a = Inr x" and ys: "collect rs = Inr ys" and xs: "xs = x # ys"
    by (auto simp: bnd_def split: sum.splits)
  from Cons.IH[OF ys] have l: "length ys = length rs" and n: "\<forall>i < length rs. rs ! i = Inr (ys ! i)"
    by simp_all
  show ?case
  proof (intro conjI allI impI)
    show "length xs = length (a # rs)" using l xs by simp
    fix i assume "i < length (a # rs)"
    then show "(a # rs) ! i = Inr (xs ! i)" using a xs n by (cases i) simp_all
  qed
qed

lemma collect_total:
  "(\<forall>r \<in> set rs. \<exists>x. r = Inr x) \<Longrightarrow> \<exists>xs. collect rs = Inr xs"
proof (induction rs)
  case Nil
  then show ?case by simp
next
  case (Cons a rs)
  then obtain x xs where "a = Inr x" "collect rs = Inr xs" by auto
  then show ?case by (simp add: bnd_def)
qed

lemma render_step:
  "n \<noteq> 1 \<Longrightarrow> render E d n
     = collect (map (\<lambda>i. at_color E d (samplePos E (rnd E (1 / of_int (n - 1))) i)) [0..n - 1])"
  by (simp add: render_def fdiv_def bnd_def qtIndexRange_def)

lemma render_element:
  assumes n: "n \<noteq> 1" and i: "0 \<le> i" "i < n"
    and all: "\<forall>j \<in> set [0..n - 1]. \<exists>c. at_color E d (samplePos E (rnd E (1 / of_int (n - 1))) j) = Inr c"
  shows "element (render E d n) (nat i) = at_color E d (samplePos E (rnd E (1 / of_int (n - 1))) i)"
proof -
  let ?rs = "map (\<lambda>i. at_color E d (samplePos E (rnd E (1 / of_int (n - 1))) i)) [0..n - 1]"
  have "\<forall>r \<in> set ?rs. \<exists>x. r = Inr x" using all by auto
  from collect_total[OF this] obtain xs where xs: "collect ?rs = Inr xs" by blast
  from collect_Inr[OF xs] have l: "length xs = length ?rs" and nth: "\<forall>k < length ?rs. ?rs ! k = Inr (xs ! k)"
    by simp_all
  have len: "length ?rs = nat n" using i by simp
  have k: "nat i < length ?rs" using i len by simp
  have "?rs ! nat i = at_color E d (samplePos E (rnd E (1 / of_int (n - 1))) i)"
    using i by simp
  moreover have "?rs ! nat i = Inr (xs ! nat i)" using nth k by blast
  ultimately have "Inr (xs ! nat i) = at_color E d (samplePos E (rnd E (1 / of_int (n - 1))) i)"
    by (simp only:)
  moreover have "render E d n = Inr xs" by (simp only: render_step[OF n] xs)
  moreover have "nat i < length xs" using k l by simp
  ultimately show ?thesis by (simp add: element_def bnd_def)
qed





lemma at_color_few_stops: "length (stops d) < 2 \<Longrightarrow> \<exists>c. at_color E d p = Inr c"
  by (cases "stops d") (simp_all add: at_color_def stopColor_def iter_value_def bnd_def)

text \<open>
  C9, amended. For every size of at least 2, \<open>render(size)\<close> samples \<open>at\<close> at the positions
  \<open>i * k\<close> for \<open>i\<close> from 0 to \<open>size - 1\<close>, where the step \<open>k = 1 / (size - 1)\<close> is computed once.
  It returns whenever \<open>at\<close> returns a colour at each of these positions, as it does on a
  gradient with fewer than two stops and, in discrete and linear mode, on a gradient whose
  keys run from 0 to 1; and then it returns exactly \<open>size\<close> colours, the \<open>i\<close>-th being
  \<open>at(i * k)\<close>. The first sample is exactly 0. Where the arithmetic is exact \<open>i * k\<close> is
  \<open>i / (size - 1)\<close>: always without rounding, and in binary64 for \<open>render(5)\<close>, which
  samples at 0, 0.25, 0.5, 0.75 and 1, and for \<open>render(2)\<close>, which samples at 0 and 1. In
  general the rounded product \<open>i * k\<close> differs from the quotient \<open>i / (size - 1)\<close>.
\<close>

theorem render_samples:
  assumes r: "rounding (rnd E)" and n: "2 \<le> n"
  shows "render E d n
           = collect (map (\<lambda>i. at_color E d (samplePos E (rnd E (1 / of_int (n - 1))) i)) [0..n - 1])
    \<and> ((\<forall>i \<in> set [0..n - 1]. \<exists>c. at_color E d (samplePos E (rnd E (1 / of_int (n - 1))) i) = Inr c)
          \<longrightarrow> (\<exists>cs. render E d n = Inr cs))
    \<and> (length (stops d) < 2
          \<or> 2 \<le> length (stops d) \<and> fst (hd (stops d)) = 0 \<and> fst (last (stops d)) = 1
             \<and> func (interpolateMode d) \<noteq> InterpolateCubic
          \<longrightarrow> (\<exists>cs. render E d n = Inr cs))
    \<and> (\<forall>cs. render E d n = Inr cs \<longrightarrow> length cs = nat n
          \<and> (\<forall>i < nat n. at_color E d (samplePos E (rnd E (1 / of_int (n - 1))) (int i))
                            = Inr (cs ! i)))
    \<and> samplePos E (rnd E (1 / of_int (n - 1))) 0 = 0
    \<and> (rnd E = (\<lambda>x. x)
         \<longrightarrow> (\<forall>i. samplePos E (rnd E (1 / of_int (n - 1))) i = of_int i / of_int (n - 1)))
    \<and> render E d 5 = collect (map (at_color E d) [0, 1/4, 1/2, 3/4, 1])
    \<and> render E d 2 = collect (map (at_color E d) [0, 1])"
proof -
  let ?k = "rnd E (1 / of_int (n - 1))"
  let ?rs = "map (\<lambda>i. at_color E d (samplePos E ?k i)) [0..n - 1]"
  have n1: "n \<noteq> 1" using n by simp
  have 1: "render E d n = collect ?rs" using n1 by (rule render_step)
  have tot: "\<exists>cs. render E d n = Inr cs"
    if "\<forall>i \<in> set [0..n - 1]. \<exists>c. at_color E d (samplePos E ?k i) = Inr c"
  proof -
    have "\<forall>r \<in> set ?rs. \<exists>x. r = Inr x" using that by auto
    from collect_total[OF this] show ?thesis by (simp only: 1)
  qed
  have suff: "\<exists>cs. render E d n = Inr cs"
    if "length (stops d) < 2
          \<or> 2 \<le> length (stops d) \<and> fst (hd (stops d)) = 0 \<and> fst (last (stops d)) = 1
             \<and> func (interpolateMode d) \<noteq> InterpolateCubic"
  proof -
    have "\<exists>c. at_color E d p = Inr c" for p
      using that at_color_few_stops[of d E p] at_color_in_range[OF r, of d p] by blast
    then show ?thesis by (intro tot) blast
  qed
  have 2: "length cs = nat n \<and> (\<forall>i < nat n. at_color E d (samplePos E ?k (int i)) = Inr (cs ! i))"
    if "render E d n = Inr cs" for cs
  proof -
    from that 1 have "collect ?rs = Inr cs" by simp
    from collect_Inr[OF this] have l: "length cs = length ?rs"
      and nth: "\<forall>i < length ?rs. ?rs ! i = Inr (cs ! i)" by simp_all
    have len: "length ?rs = nat n" using n by simp
    have "at_color E d (samplePos E ?k (int i)) = Inr (cs ! i)" if "i < nat n" for i
    proof -
      have "?rs ! i = at_color E d (samplePos E ?k (int i))" using that by simp
      moreover have "?rs ! i = Inr (cs ! i)" using nth that len by simp
      ultimately show ?thesis by (simp only:)
    qed
    then show ?thesis using l len by simp
  qed
  have 3: "samplePos E ?k 0 = 0" by (simp add: samplePos_def fmul_def rounding_zero[OF r])
  have 4: "samplePos E ?k i = of_int i / of_int (n - 1)" if "rnd E = (\<lambda>x. x)" for i
    by (simp add: samplePos_def fmul_def that)
  have q: "rnd E (1/4) = 1/4" "rnd E (1/2) = 1/2" "rnd E (3/4) = 3/4" "rnd E 1 = 1" "rnd E 0 = 0"
    using rounding_fixes[OF r] fl64_quarter fl64_half fl64_three_quarters fl64_one fl64_0 by simp_all
  have 5: "render E d 5 = collect (map (at_color E d) [0, 1/4, 1/2, 3/4, 1])"
    by (simp add: render_step upto_rec1 samplePos_def fmul_def q)
  have 6: "render E d 2 = collect (map (at_color E d) [0, 1])"
    by (simp add: render_step upto_rec1 samplePos_def fmul_def q)
  from 1 tot suff 2 3 4 5 6 show ?thesis by blast
qed

lemma at_blackWhite_ends:
  "at_color env64 blackWhite 0 = Inr black" "at_color env64 blackWhite 1 = Inr white"
  using qFuzzyCompare_same[of env64 0] qFuzzyCompare_same[of env64 1]
  by (simp_all add: at_color_def blackWhite_def spreadPos_def qBound_def
      iter_key_def iter_value_def mkStop_def stopColor_def bnd_def Let_def env64_def sampleEnv_def fl64_0)

text \<open>
  C9, amended, on the black-to-white gradient with two samples, in binary64.
\<close>

theorem render_samples_witness:
  "rounding (rnd env64) \<and> (2::int) \<le> 2 \<and> render env64 blackWhite 2 = Inr [black, white]"
proof -
  have "(2::int) \<le> 2" by simp
  from render_samples[OF env64_rounding this, of blackWhite]
  have "render env64 blackWhite 2 = collect (map (at_color env64 blackWhite) [0, 1])" by fast
  then show ?thesis using env64_rounding by (simp add: at_blackWhite_ends bnd_def)
qed

lemma blackWhiteSteps_total: "\<exists>c. at_color env64 blackWhiteSteps p = Inr c"
proof -
  have "2 \<le> length (stops blackWhiteSteps)" "fst (hd (stops blackWhiteSteps)) = 0"
    "fst (last (stops blackWhiteSteps)) = 1"
    "func (interpolateMode blackWhiteSteps) \<noteq> InterpolateCubic"
    by (simp_all add: blackWhiteSteps_def blackWhite_def)
  with at_color_in_range[OF env64_rounding, of blackWhiteSteps p] show ?thesis by blast
qed

lemma sample_49_of_99:
  "samplePos env64 (rnd env64 (1 / of_int (99 - 1))) 49 = 9007199254740991 / 18014398509481984"
  by (simp add: samplePos_def fmul_def env64_def sampleEnv_def fl64_eval)

lemma below_half_facts:
  "\<not> qFuzzyCompare env64 (9007199254740991 / 18014398509481984) 1"
  "\<not> qFuzzyCompare env64 (9007199254740991 / 18014398509481984) 0"
  "fdiv env64 (fsub env64 (9007199254740991 / 18014398509481984) 0) (fsub env64 1 0)
     = Inr (9007199254740991 / 18014398509481984)"
  by (simp_all add: qFuzzyCompare_def fdiv_def fmul_def fsub_def env64_def sampleEnv_def fl64_eval)

lemma half_facts:
  "\<not> qFuzzyCompare env64 (1/2) 1"
  "\<not> qFuzzyCompare env64 (1/2) 0"
  "fdiv env64 (fsub env64 (1/2) 0) (fsub env64 1 0) = Inr (1/2)"
  by (simp_all add: qFuzzyCompare_def fdiv_def fmul_def fsub_def env64_def sampleEnv_def fl64_eval)

lemma at_below_half:
  "at_color env64 blackWhiteSteps (9007199254740991 / 18014398509481984) = Inr black"
  using below_half_facts
  by (simp add: at_color_def blackWhiteSteps_def blackWhite_def spreadPos_def qBound_def
      iter_key_def iter_minus_def iter_value_def mkStop_def stopColor_def bnd_def Let_def)

lemma at_half:
  "at_color env64 blackWhiteSteps (1/2) = Inr white"
  using half_facts
  by (simp add: at_color_def blackWhiteSteps_def blackWhite_def spreadPos_def qBound_def
      iter_key_def iter_minus_def iter_value_def mkStop_def stopColor_def bnd_def Let_def)

text \<open>
  C9 as the spec states it: the \<open>i\<close>-th colour of \<open>render(size)\<close> is \<open>at(i / (size - 1))\<close>.
  It fails for 99 samples of the black-to-white gradient with discrete interpolation: the
  step is the binary64 value of \<open>1.0 / 98\<close>, and \<open>49 * (1.0 / 98)\<close> evaluates to
  0.49999999999999994, below the pivot 0.5, so the 49th colour is black, while
  \<open>49.0 / 98\<close> is 0.5 and \<open>at(0.5)\<close> is white.
\<close>

theorem render_99_midpoint_counterexample:
  "element (render env64 blackWhiteSteps 99) 49 = Inr black
   \<and> at_color env64 blackWhiteSteps (fl64 (49 / 98)) = Inr white
   \<and> black \<noteq> white"
proof -
  have "element (render env64 blackWhiteSteps 99) (nat 49)
      = at_color env64 blackWhiteSteps (samplePos env64 (rnd env64 (1 / of_int (99 - 1))) 49)"
    by (rule render_element) (simp_all add: blackWhiteSteps_total)
  then have "element (render env64 blackWhiteSteps 99) 49 = Inr black"
    by (simp only: sample_49_of_99 at_below_half) simp
  moreover have "(49::real) / 98 = 1/2" by simp
  then have "at_color env64 blackWhiteSteps (fl64 (49 / 98)) = Inr white"
    by (simp only: fl64_half at_half)
  ultimately show ?thesis by (simp add: black_def white_def)
qed

section \<open>Normalization\<close>

text \<open>
  Stops at 0 and 49 in binary64: the scale \<open>1.0 / 49\<close> is rounded, and
  \<open>49 * (1.0 / 49)\<close> evaluates to 0.9999999999999999, that is \<open>1 - 2\<^sup>-\<^sup>5\<^sup>3\<close>. Read back and
  normalized again, the scale is \<open>1.0 / 0.9999999999999999 = 1.0000000000000002\<close> and the
  second stop moves to 1.0.
\<close>

lemma once49_eq: "setStops env64 stops49 NormalizeStops blackWhite = Inr once49"
  by (simp add: setStops_def stops49_def fromList_def iter_key_def iter_minus_def bnd_def
      fdiv_def fsub_def fmul_def env64_def sampleEnv_def normalized_def fl64_eval
      once49_def blackWhite_def)

lemma twice49_eq: "setStops env64 (stopList once49) NormalizeStops once49 = Inr twice49"
  by (simp add: setStops_def stopList_def once49_def fromList_def iter_key_def iter_minus_def bnd_def
      fdiv_def fsub_def fmul_def env64_def sampleEnv_def normalized_def fl64_eval twice49_def)

lemma twice49_differs: "twice49 \<noteq> once49"
  by (simp add: twice49_def once49_def)

lemma at_once49_one: "at_color env64 once49 1 = Inl InvalidIterator"
  by (simp add: at_color_def once49_def spreadPos_def qBound_def iter_key_def bnd_def)

text \<open>
  C5. Spec: after \<open>setStops\<close> in normalize mode on at least two stops the smallest key
  is exactly 0.0 and the largest exactly 1.0; the source states the same aim in its comment
  "Calculate coefficients to normalize stops to [0.0, 1.0]". But it multiplies by the
  rounded reciprocal of the range instead of dividing by the range: for stops at 0 and 49
  the largest key of the result is 0.9999999999999999, not 1.0. On that gradient \<open>at(1.0)\<close>
  finds no key at or above 1.0: \<open>lowerBound\<close> returns \<open>end()\<close>, and \<open>at\<close> dereferences
  it.
\<close>

theorem normalize_misses_one:
  "setStops env64 stops49 NormalizeStops blackWhite = Inr once49
   \<and> map fst (stops once49) = [0, 1 - 1 / 2 ^ 53]
   \<and> fst (last (stops once49)) \<noteq> 1
   \<and> at_color env64 once49 1 = Inl InvalidIterator"
  using once49_eq at_once49_one by (simp add: once49_def)

text \<open>
  C8. Spec: normalizing the stops read back from a normalized gradient yields the same
  stop set. The first pass missing 1.0 breaks this too: on stops at 0 and 49 it leaves the
  keys 0 and 0.9999999999999999, and the second pass moves the second stop to 1.0, so the
  stops after two passes differ from the stops after one.
\<close>

theorem normalize_twice_differs:
  "setStops env64 stops49 NormalizeStops blackWhite = Inr once49
   \<and> setStops env64 (stopList once49) NormalizeStops once49 = Inr twice49
   \<and> stopList once49 \<noteq> stopList twice49
   \<and> twice49 \<noteq> once49"
  using once49_eq twice49_eq twice49_differs by (simp add: stopList_def once49_def twice49_def)

end
